theory Spec2Isabelle
  imports Complex_Main "HOL-Library.AList" "HOL-Library.Log_Nat"
begin

text \<open>
  A model of the voice and partial allocation engine of \<open>additive-synth.js\<close>: the
  \<open>PartialPool\<close> and, of \<open>AdditiveSynth\<close>, \<open>selectPartials\<close>, \<open>noteOn\<close>,
  \<open>applyEnvelope\<close>, \<open>noteOff\<close>, \<open>cleanupNote\<close>, voice stealing, the harmonic
  evolution tick and the timer callbacks these schedule.  The engine is single-threaded:
  every call runs to completion, and a \<open>setTimeout\<close> callback runs only between calls, so
  the queue of pending timeouts is part of the state.  What the acoustic model computes (the
  configurations of a spectral profile, the decay factors of a tick) enters as a parameter.
  Console output, the master gain, the wiring of the note gain nodes and the performance
  monitor are left out; they influence none of the modelled state.
\<close>

section \<open>Audio parameters\<close>

text \<open>
  The engine drives the gain of every partial through a Web Audio \<open>AudioParam\<close>: a live
  value plus a timeline of scheduled automation events.  Numbers are JavaScript doubles in
  the source; times, gains and amplitudes are real numbers here, and the adaptive partial
  limit of \<open>noteOn\<close>, where the rounding of a double decides an integer, is computed in
  double arithmetic.  No time passes while one engine call runs (JavaScript
  runs each call to completion), so a scheduling call only extends the timeline and a read of
  \<open>.value\<close> returns the stored live value.
\<close>

datatype automation =
    SetValueAtTime real real
  | LinearRampToValueAtTime real real
  | ExponentialRampToValueAtTime real real

fun eventTime :: "automation \<Rightarrow> real" where
  "eventTime (SetValueAtTime v t) = t"
| "eventTime (LinearRampToValueAtTime v t) = t"
| "eventTime (ExponentialRampToValueAtTime v t) = t"

record AudioParam =
  currentValue :: real
  scheduled :: "automation list"

text \<open>\<open>cancelScheduledValues(t)\<close> drops every scheduled event whose time is at or after \<open>t\<close>.\<close>

definition cancelScheduledValues :: "real \<Rightarrow> AudioParam \<Rightarrow> AudioParam" where
  "cancelScheduledValues t p = p\<lparr>scheduled := filter (\<lambda>e. eventTime e < t) (scheduled p)\<rparr>"

definition setValueAtTime :: "real \<Rightarrow> real \<Rightarrow> AudioParam \<Rightarrow> AudioParam" where
  "setValueAtTime v t p = p\<lparr>scheduled := scheduled p @ [SetValueAtTime v t]\<rparr>"

definition linearRampToValueAtTime :: "real \<Rightarrow> real \<Rightarrow> AudioParam \<Rightarrow> AudioParam" where
  "linearRampToValueAtTime v t p = p\<lparr>scheduled := scheduled p @ [LinearRampToValueAtTime v t]\<rparr>"

definition exponentialRampToValueAtTime :: "real \<Rightarrow> real \<Rightarrow> AudioParam \<Rightarrow> AudioParam" where
  "exponentialRampToValueAtTime v t p =
     p\<lparr>scheduled := scheduled p @ [ExponentialRampToValueAtTime v t]\<rparr>"

text \<open>The assignment \<open>param.value = v\<close>.\<close>

definition setValue :: "real \<Rightarrow> AudioParam \<Rightarrow> AudioParam" where
  "setValue v p = p\<lparr>currentValue := v\<rparr>"

text \<open>The platform rejects negative event times, so every timeline it holds satisfies this.\<close>

definition timesNonneg :: "AudioParam \<Rightarrow> bool" where
  "timesNonneg p = list_all (\<lambda>e. 0 \<le> eventTime e) (scheduled p)"

section \<open>PartialPool\<close>

text \<open>
  One pooled oscillator, filter and gain chain.  The pool's array is the store of these
  objects; a reference to a partial (what \<open>acquire\<close> returns and voices hold) is its
  position in that array.  \<open>connected\<close> records whether the chain is wired to a note's
  gain node; the filter is configured once in the constructor and never touched again.
\<close>

record Partial =
  oscFrequency :: real
  gain :: AudioParam
  connected :: bool
  inUse :: bool
  index :: nat

record PartialPool =
  pool :: "Partial list"
  available :: "nat list"

datatype error = TypeError

text \<open>The constructor: \<open>sz\<close> partials, all free, gain 0, indices pushed in creation order.\<close>

definition newPartial :: "nat \<Rightarrow> Partial" where
  "newPartial i = \<lparr>oscFrequency = 440, gain = \<lparr>currentValue = 0, scheduled = []\<rparr>,
                   connected = False, inUse = False, index = i\<rparr>"

definition PartialPool_new :: "nat \<Rightarrow> PartialPool" where
  "PartialPool_new sz = \<lparr>pool = map newPartial [0..<sz], available = [0..<sz]\<rparr>"

text \<open>
  \<open>acquire\<close>: \<open>available.pop()\<close> takes the last index.  Reading a field of
  \<open>this.pool[idx]\<close> for an index outside the array is a TypeError in the source.
\<close>

definition acquire :: "PartialPool \<Rightarrow> error + (nat option \<times> PartialPool)" where
  "acquire pp =
     (if length (available pp) = 0 then Inr (None, pp)
      else
        let idx = last (available pp);
            pp1 = pp\<lparr>available := butlast (available pp)\<rparr>
        in if idx < length (pool pp1) then
             let partial = pool pp1 ! idx;
                 partial1 = partial\<lparr>inUse := True\<rparr>;
                 partial2 = partial1\<lparr>gain := setValue 0 (cancelScheduledValues 0 (gain partial1))\<rparr>
             in Inr (Some idx, pp1\<lparr>pool := (pool pp1)[idx := partial2]\<rparr>)
           else Inl TypeError)"

text \<open>
  \<open>release(partial)\<close>: \<open>None\<close> is a null or undefined argument; \<open>Some r\<close> refers to the
  pool's partial at position \<open>r\<close>.
\<close>

definition release :: "PartialPool \<Rightarrow> nat option \<Rightarrow> PartialPool" where
  "release pp ref =
     (case ref of
        None \<Rightarrow> pp
      | Some r \<Rightarrow>
          let partial = pool pp ! r in
          if \<not> inUse partial then pp
          else
            let idx = index partial;
                partial1 = partial\<lparr>inUse := False\<rparr>;
                partial2 = partial1\<lparr>gain := setValue 0 (cancelScheduledValues 0 (gain partial1))\<rparr>;
                partial3 = partial2\<lparr>connected := False\<rparr>
            in pp\<lparr>pool := (pool pp)[r := partial3], available := available pp @ [idx]\<rparr>)"

text \<open>
  The representation invariant of the pool: every free-list entry is a position of the
  array, no entry occurs twice, each partial carries its own position, and a partial is
  flagged in-use exactly when its position is not on the free list.
\<close>

definition pool_wf :: "PartialPool \<Rightarrow> bool" where
  "pool_wf pp =
     (distinct (available pp) \<and>
      list_all (\<lambda>i. i < length (pool pp)) (available pp) \<and>
      list_all (\<lambda>i. index (pool pp ! i) = i \<and> (inUse (pool pp ! i) \<longleftrightarrow> i \<notin> set (available pp)))
        [0..<length (pool pp)])"

definition inUseCount :: "PartialPool \<Rightarrow> nat" where
  "inUseCount pp = length (filter inUse (pool pp))"

text \<open>Sequences of pool calls; a call that throws ends the run with the error.\<close>

datatype poolCall = Acquire | Release "nat option"

fun poolStep :: "PartialPool \<Rightarrow> poolCall \<Rightarrow> error + PartialPool" where
  "poolStep pp Acquire = (case acquire pp of Inl e \<Rightarrow> Inl e | Inr (r, pp') \<Rightarrow> Inr pp')"
| "poolStep pp (Release ref) = Inr (release pp ref)"

fun poolRun :: "PartialPool \<Rightarrow> poolCall list \<Rightarrow> error + PartialPool" where
  "poolRun pp [] = Inr pp"
| "poolRun pp (c # cs) = (case poolStep pp c of Inl e \<Rightarrow> Inl e | Inr pp' \<Rightarrow> poolRun pp' cs)"

text \<open>A release call is handed null or one of the pool's own partials.\<close>

fun callOk :: "nat \<Rightarrow> poolCall \<Rightarrow> bool" where
  "callOk n Acquire = True"
| "callOk n (Release None) = True"
| "callOk n (Release (Some r)) = (r < n)"

section \<open>Voices and the engine state\<close>

text \<open>One precomputed partial configuration of a spectral profile.\<close>

record Config =
  freq :: real
  amp :: real
  decay :: real
  harmonicNum :: nat

text \<open>An entry of a voice's \<open>initialAmplitudes\<close>: \<open>{harmonicNum, initialAmp}\<close>.\<close>

record HarmonicInfo =
  infoHarmonicNum :: nat
  initialAmp :: real

text \<open>
  An entry of \<open>activeNotes\<close>.  \<open>partials\<close> holds references into the pool's array;
  \<open>gainNode\<close> is the gain parameter of the note's own gain node.
\<close>

record Voice =
  partials :: "nat list"
  gainNode :: AudioParam
  frequency :: real
  velocity :: real
  startTime :: real
  keyDown :: bool
  pedalDown :: bool
  initialAmplitudes :: "HarmonicInfo list"
  lastUpdateTime :: real

text \<open>
  What a pending \<open>setTimeout\<close> callback will do: the cleanup scheduled by \<open>noteOff\<close>, the
  deferred silence re-check scheduled by the evolution loop, and the two callbacks scheduled
  by \<open>cleanupNote\<close> (return one partial to the pool; disconnect the note's gain node).
\<close>

datatype timerAction =
    NoteOffCleanup nat
  | DecayCheck nat
  | PartialRelease nat
  | NoteGainDisconnect nat

type_synonym timer = "nat \<times> real \<times> timerAction"

text \<open>
  The engine.  \<open>activeNotes\<close> and \<open>pendingCleanups\<close> are JavaScript Maps, kept as
  association lists in insertion order (\<open>AList.update\<close> overwrites in place or appends, as
  \<open>Map.set\<close> does).  \<open>currentTime\<close> is the audio clock, constant during one call.
  \<open>timers\<close> is the host's queue of pending timeouts with their delays in milliseconds.
\<close>

record AdditiveSynth =
  currentTime :: real
  partialPool :: PartialPool
  activeNotes :: "(nat \<times> Voice) list"
  pendingCleanups :: "(nat \<times> nat) list"
  maxPartials :: int
  timers :: "timer list"
  nextTimerId :: nat

text \<open>
  The constructor builds a pool of 128 partials and sets \<open>maxPartials\<close> to 12; the pool
  size is a parameter here.
\<close>

definition AdditiveSynth_new :: "nat \<Rightarrow> real \<Rightarrow> AdditiveSynth" where
  "AdditiveSynth_new sz t0 =
     \<lparr>currentTime = t0, partialPool = PartialPool_new sz, activeNotes = [],
      pendingCleanups = [], maxPartials = 12, timers = [], nextTimerId = 1\<rparr>"

definition setTimeout :: "real \<Rightarrow> timerAction \<Rightarrow> AdditiveSynth \<Rightarrow> nat \<times> AdditiveSynth" where
  "setTimeout ms a s =
     (nextTimerId s,
      s\<lparr>timers := timers s @ [(nextTimerId s, ms, a)], nextTimerId := Suc (nextTimerId s)\<rparr>)"

definition clearTimeout :: "nat \<Rightarrow> timer list \<Rightarrow> timer list" where
  "clearTimeout tid ts = filter (\<lambda>t. fst t \<noteq> tid) ts"

text \<open>The shared prologue of \<open>noteOff\<close> and \<open>cleanupNote\<close>: cancel a pending cleanup.\<close>

definition cancelPendingCleanup :: "nat \<Rightarrow> AdditiveSynth \<Rightarrow> AdditiveSynth" where
  "cancelPendingCleanup noteId s =
     (case map_of (pendingCleanups s) noteId of
        None \<Rightarrow> s
      | Some tid \<Rightarrow> s\<lparr>timers := clearTimeout tid (timers s),
                      pendingCleanups := AList.delete noteId (pendingCleanups s)\<rparr>)"

definition setPartialGain :: "nat \<Rightarrow> (AudioParam \<Rightarrow> AudioParam) \<Rightarrow> PartialPool \<Rightarrow> PartialPool" where
  "setPartialGain r f pp = pp\<lparr>pool := (pool pp)[r := (pool pp ! r)\<lparr>gain := f (gain (pool pp ! r))\<rparr>]\<rparr>"

definition getActiveNoteCount :: "AdditiveSynth \<Rightarrow> nat" where
  "getActiveNoteCount s = length (activeNotes s)"

definition getActivePartialCount :: "AdditiveSynth \<Rightarrow> nat" where
  "getActivePartialCount s = fold (\<lambda>(noteId, note) count. count + length (partials note)) (activeNotes s) 0"

section \<open>cleanupNote and noteOff\<close>

text \<open>The fade that \<open>cleanupNote\<close> puts on a gain before its node is disconnected.\<close>

definition cleanupFade :: "real \<Rightarrow> AudioParam \<Rightarrow> AudioParam" where
  "cleanupFade now g =
     (let cv = currentValue g;
          g1 = cancelScheduledValues now g
      in if cv > 0.001
         then exponentialRampToValueAtTime 0.001 (now + 0.01) (setValueAtTime cv now g1)
         else setValueAtTime 0 now g1)"

definition cleanupPartial :: "real \<Rightarrow> nat \<Rightarrow> AdditiveSynth \<Rightarrow> AdditiveSynth" where
  "cleanupPartial now r s =
     snd (setTimeout 15 (PartialRelease r)
            (s\<lparr>partialPool := setPartialGain r (cleanupFade now) (partialPool s)\<rparr>))"

definition cleanupNote :: "AdditiveSynth \<Rightarrow> nat \<Rightarrow> AdditiveSynth" where
  "cleanupNote s noteId =
     (case map_of (activeNotes s) noteId of
        None \<Rightarrow> s
      | Some note \<Rightarrow>
          let s1 = cancelPendingCleanup noteId s;
              now = currentTime s1;
              s2 = fold (cleanupPartial now) (partials note) s1;
              s3 = (if currentValue (gainNode note) > 0.001
                    then snd (setTimeout 15 (NoteGainDisconnect noteId) s2)
                    else s2)
          in s3\<lparr>activeNotes := AList.delete noteId (activeNotes s3)\<rparr>)"

text \<open>The release envelope that \<open>noteOff\<close> puts on a gain.\<close>

definition releaseRamp :: "real \<Rightarrow> real \<Rightarrow> AudioParam \<Rightarrow> AudioParam" where
  "releaseRamp now safeReleaseTime g =
     (let g1 = setValueAtTime (currentValue g) now (cancelScheduledValues now g)
      in if safeReleaseTime < 0.15
         then linearRampToValueAtTime 0.001 (now + safeReleaseTime) g1
         else exponentialRampToValueAtTime 0.001 (now + safeReleaseTime) g1)"

definition noteOff :: "AdditiveSynth \<Rightarrow> nat \<Rightarrow> real \<Rightarrow> bool \<Rightarrow> AdditiveSynth" where
  "noteOff s noteId releaseTime immediateCleanup =
     (case map_of (activeNotes s) noteId of
        None \<Rightarrow> s
      | Some note \<Rightarrow>
          let s1 = cancelPendingCleanup noteId s;
              now = currentTime s1;
              safeReleaseTime = max 0.1 releaseTime;
              masterGainValue = currentValue (gainNode note);
              s2 = s1\<lparr>partialPool :=
                        fold (\<lambda>r. setPartialGain r (releaseRamp now safeReleaseTime))
                          (partials note) (partialPool s1)\<rparr>;
              s3 = (if masterGainValue < 0.99
                    then s2\<lparr>activeNotes :=
                              AList.update noteId
                                (note\<lparr>gainNode := releaseRamp now safeReleaseTime (gainNode note)\<rparr>)
                                (activeNotes s2)\<rparr>
                    else s2)
          in if immediateCleanup then cleanupNote s3 noteId
             else
               let (timeoutId, s4) = setTimeout (releaseTime * 1000 + 100) (NoteOffCleanup noteId) s3
               in s4\<lparr>pendingCleanups := AList.update noteId timeoutId (pendingCleanups s4)\<rparr>)"

section \<open>Voice stealing\<close>

definition stealScore :: "AdditiveSynth \<Rightarrow> Voice \<Rightarrow> real" where
  "stealScore s note =
     (let masterGain = currentValue (gainNode note);
          avgPartialGain =
            foldl (\<lambda>sum r. sum + currentValue (gain (pool (partialPool s) ! r))) 0 (partials note)
              / real (length (partials note));
          effectiveVolume = masterGain * avgPartialGain;
          age = currentTime s - startTime note
      in effectiveVolume / (1 + age * 0.1))"

definition stealEligible :: "Voice \<Rightarrow> bool" where
  "stealEligible note = (\<not> keyDown note \<and> length (partials note) > 0)"

text \<open>
  The scan keeps \<open>(quietestNoteId, quietestVolume)\<close>; \<open>None\<close> in the second component is
  the initial \<open>Infinity\<close>, below which every score lies.
\<close>

definition stealStep :: "AdditiveSynth \<Rightarrow> nat option \<times> real option \<Rightarrow> nat \<times> Voice \<Rightarrow> nat option \<times> real option" where
  "stealStep s acc entry =
     (if stealEligible (snd entry) then
        let stealScore = stealScore s (snd entry)
        in if (case snd acc of None \<Rightarrow> True | Some quietestVolume \<Rightarrow> stealScore < quietestVolume)
           then (Some (fst entry), Some stealScore)
           else acc
      else acc)"

definition stealVoiceFromQuietestSustainedNote :: "AdditiveSynth \<Rightarrow> nat option \<times> AdditiveSynth" where
  "stealVoiceFromQuietestSustainedNote s =
     (case fst (foldl (stealStep s) (None, None) (activeNotes s)) of
        None \<Rightarrow> (None, s)
      | Some quietestNoteId \<Rightarrow>
          (case map_of (activeNotes s) quietestNoteId of
             None \<Rightarrow> (None, s)
           | Some note \<Rightarrow> (Some quietestNoteId, noteOff s quietestNoteId 0.05 False)))"

section \<open>Partial selection and noteOn\<close>

text \<open>
  JavaScript numbers are IEEE 754 doubles.  \<open>fl64 x\<close> is the double nearest to the real
  \<open>x\<close>: 53 significant bits, a tie going to the even significand.  It is what a decimal
  literal or one arithmetic operation yields whose exact value is \<open>x\<close>.  \<open>exponent x\<close> is
  the \<open>e\<close> with \<open>2 ^ e \<le> x < 2 ^ (e + 1)\<close> for a positive \<open>x\<close>.  Subnormal numbers, overflow
  and the sign of zero are left out: the quantities rounded here are ratios of array
  lengths and products with the partial limit.
\<close>

definition pow2 :: "int \<Rightarrow> real" where
  "pow2 e = (if 0 \<le> e then 2 ^ nat e else 1 / 2 ^ nat (- e))"

definition roundTiesToEven :: "real \<Rightarrow> int" where
  "roundTiesToEven y =
     (let n = \<lfloor>y\<rfloor>;
          f = y - of_int n
      in if f < 1 / 2 then n
         else if f > 1 / 2 then n + 1
         else if even n then n else n + 1)"

definition exponent :: "real \<Rightarrow> int" where
  "exponent x =
     (if 1 \<le> x then bitlen \<lfloor>x\<rfloor> - 1
      else let k = bitlen \<lfloor>1 / x\<rfloor> - 1
           in if x * pow2 k = 1 then - k else - k - 1)"

definition fl64 :: "real \<Rightarrow> real" where
  "fl64 x =
     (if x = 0 then 0
      else let e = exponent \<bar>x\<bar> - 52
           in sgn x * of_int (roundTiesToEven (\<bar>x\<bar> / pow2 e)) * pow2 e)"

text \<open>\<open>Math.round\<close>: the nearest integer, halves upwards.\<close>

definition Math_round :: "real \<Rightarrow> int" where
  "Math_round x = \<lfloor>x + 1 / 2\<rfloor>"

text \<open>\<open>xs.slice(0, limit)\<close>; a negative limit counts from the end of the array.\<close>

definition slice0 :: "int \<Rightarrow> 'a list \<Rightarrow> 'a list" where
  "slice0 limit xs = (if 0 \<le> limit then take (nat limit) xs else take (length xs - nat (- limit)) xs)"

text \<open>
  \<open>selectPartials(configs, maxPartials = null)\<close>.  The candidates are kept as indices into
  \<open>configs\<close>, as in the source; \<open>Array.prototype.sort\<close> is stable, as \<open>sort_key\<close> is.
\<close>

definition selectPartials :: "AdditiveSynth \<Rightarrow> Config list \<Rightarrow> int option \<Rightarrow> Config list" where
  "selectPartials s configs maxP =
     (let limit = (case maxP of None \<Rightarrow> maxPartials s
                   | Some m \<Rightarrow> if m = 0 then maxPartials s else m);
          ampThreshold = 0.001;
          maxFreq = 24000;
          candidates = filter (\<lambda>i. amp (configs ! i) > ampThreshold \<and> freq (configs ! i) \<le> maxFreq)
                         [0..<length configs];
          sorted = sort_key (\<lambda>i. - amp (configs ! i)) candidates
      in map (\<lambda>i. configs ! i) (slice0 limit sorted))"

text \<open>
  The adaptive limit computed at the start of \<open>noteOn\<close>, in the source's double
  arithmetic: each division, subtraction and product is rounded, and 0.7 and 0.3 are the
  doubles nearest to these decimals.  The array lengths and the partial limit are integers
  a double holds exactly.  With an empty pool array the source's ratio is NaN and the
  comparison with 0.7 is false.
\<close>

definition adaptiveMaxPartials :: "AdditiveSynth \<Rightarrow> int" where
  "adaptiveMaxPartials s =
     (let poolAvailable = length (available (partialPool s));
          poolTotal = length (pool (partialPool s))
      in if poolTotal = 0 then maxPartials s
         else
           let poolUsageRatio = fl64 (1 - fl64 (real poolAvailable / real poolTotal))
           in if poolUsageRatio > fl64 0.7
              then max 6 (Math_round
                     (fl64 (real_of_int (maxPartials s) *
                            fl64 (1 - fl64 (fl64 (poolUsageRatio - fl64 0.7) / fl64 0.3)))))
              else maxPartials s)"

definition applyEnvelope :: "real \<Rightarrow> AudioParam \<Rightarrow> real \<Rightarrow> real \<Rightarrow> real \<Rightarrow> AudioParam" where
  "applyEnvelope ctxTime gainParam vel decayTime startT =
     (let normalizedVel = max 0.001 (vel / 127);
          attackTime = 0.01 + 0.02 * (1 - normalizedVel);
          sustainLevel = max 0.001 (0.3 + normalizedVel * 0.2);
          now = (if startT = 0 then ctxTime else startT);
          g1 = cancelScheduledValues now gainParam;
          velocityScale = normalizedVel ^ 2;
          attackStart = 0.001;
          attackTarget = max 0.001 velocityScale;
          g2 = setValueAtTime attackStart now g1;
          g3 = exponentialRampToValueAtTime attackTarget (now + attackTime) g2;
          sustainTarget = max 0.001 (sustainLevel * velocityScale);
          g4 = exponentialRampToValueAtTime sustainTarget (now + attackTime + decayTime) g3
      in setValueAtTime sustainTarget (now + attackTime + decayTime) g4)"

text \<open>The body of the acquisition loop for a partial that was obtained.\<close>

definition configurePartial :: "AdditiveSynth \<Rightarrow> real \<Rightarrow> Config \<Rightarrow> real \<Rightarrow> nat \<Rightarrow> AdditiveSynth" where
  "configurePartial s vel config now r =
     (let pp = partialPool s;
          partial = pool pp ! r;
          partial1 = partial\<lparr>oscFrequency := freq config\<rparr>;
          partial2 = partial1\<lparr>gain := applyEnvelope (currentTime s) (gain partial1) vel (decay config) now\<rparr>;
          partial3 = partial2\<lparr>connected := True\<rparr>
      in s\<lparr>partialPool := pp\<lparr>pool := (pool pp)[r := partial3]\<rparr>\<rparr>)"

text \<open>
  One acquisition attempt of the loop: \<open>acquire\<close>, and on exhaustion voice stealing and a
  second \<open>acquire\<close>.  \<open>None\<close> is the loop's \<open>break\<close>.
\<close>

definition acquireOrSteal :: "AdditiveSynth \<Rightarrow> error + (nat option \<times> AdditiveSynth)" where
  "acquireOrSteal s =
     (case acquire (partialPool s) of
        Inl e \<Rightarrow> Inl e
      | Inr (Some r, pp) \<Rightarrow> Inr (Some r, s\<lparr>partialPool := pp\<rparr>)
      | Inr (None, pp) \<Rightarrow>
          (case stealVoiceFromQuietestSustainedNote (s\<lparr>partialPool := pp\<rparr>) of
             (None, s1) \<Rightarrow> Inr (None, s1)
           | (Some stolenNoteId, s1) \<Rightarrow>
               (case acquire (partialPool s1) of
                  Inl e \<Rightarrow> Inl e
                | Inr (partial, pp1) \<Rightarrow> Inr (partial, s1\<lparr>partialPool := pp1\<rparr>))))"

fun acquireLoop ::
  "AdditiveSynth \<Rightarrow> real \<Rightarrow> real \<Rightarrow> Config list \<Rightarrow> nat list \<Rightarrow> HarmonicInfo list
     \<Rightarrow> error + (AdditiveSynth \<times> nat list \<times> HarmonicInfo list)" where
  "acquireLoop s vel now [] ps ias = Inr (s, ps, ias)"
| "acquireLoop s vel now (config # rest) ps ias =
     (if freq config > 24000 then acquireLoop s vel now rest ps ias
      else
        case acquireOrSteal s of
          Inl e \<Rightarrow> Inl e
        | Inr (None, s1) \<Rightarrow> Inr (s1, ps, ias)
        | Inr (Some r, s1) \<Rightarrow>
            acquireLoop (configurePartial s1 vel config now r) vel now rest (ps @ [r])
              (ias @ [\<lparr>infoHarmonicNum = harmonicNum config, initialAmp = amp config\<rparr>]))"

text \<open>
  \<open>noteOn\<close>.  \<open>configs\<close> is the list \<open>profile.getConfigs(velocity)\<close> of the note's spectral
  profile, computed by the acoustic model.  The result is the note's gain node and the new
  engine state.
\<close>

definition noteOn ::
  "AdditiveSynth \<Rightarrow> nat \<Rightarrow> real \<Rightarrow> real \<Rightarrow> bool \<Rightarrow> bool \<Rightarrow> Config list
     \<Rightarrow> error + (AudioParam \<times> AdditiveSynth)" where
  "noteOn s noteId fr vel kd pd configs =
     (let adaptive = adaptiveMaxPartials s;
          partialConfigs = selectPartials s configs (Some adaptive);
          noteGain = \<lparr>currentValue = 1, scheduled = []\<rparr>;
          now = currentTime s
      in case acquireLoop s vel now partialConfigs [] [] of
           Inl e \<Rightarrow> Inl e
         | Inr (s1, ps, ias) \<Rightarrow>
             Inr (noteGain,
                  s1\<lparr>activeNotes :=
                       AList.update noteId
                         \<lparr>partials = ps, gainNode = noteGain, frequency = fr, velocity = vel,
                          startTime = now, keyDown = kd, pedalDown = pd,
                          initialAmplitudes = ias, lastUpdateTime = now\<rparr>
                         (activeNotes s1)\<rparr>))"

section \<open>The harmonic evolution tick\<close>

text \<open>\<open>Math.max(...xs)\<close>; \<open>None\<close> is the \<open>-Infinity\<close> of an empty argument list.\<close>

fun Math_max :: "real list \<Rightarrow> real option" where
  "Math_max [] = None"
| "Math_max (x # xs) = (case Math_max xs of None \<Rightarrow> Some x | Some m \<Rightarrow> Some (max x m))"

definition below :: "real option \<Rightarrow> real \<Rightarrow> bool" where
  "below m t = (case m of None \<Rightarrow> True | Some v \<Rightarrow> v < t)"

definition partialGains :: "AdditiveSynth \<Rightarrow> Voice \<Rightarrow> real list" where
  "partialGains s note = map (\<lambda>r. currentValue (gain (pool (partialPool s) ! r))) (partials note)"

text \<open>The update of one partial's gain towards its target amplitude.\<close>

definition evolveGain :: "real \<Rightarrow> real \<Rightarrow> AudioParam \<Rightarrow> AudioParam" where
  "evolveGain now targetAmp g =
     (let minAmp = 0.0001;
          clampedAmp = max minAmp targetAmp;
          cv = currentValue g;
          changeRatio = \<bar>cv - clampedAmp\<bar> / max cv minAmp
      in if changeRatio > 0.05
         then exponentialRampToValueAtTime clampedAmp (now + 0.2)
                (setValueAtTime (max minAmp cv) now (cancelScheduledValues now g))
         else g)"

text \<open>
  One iteration of the loop over \<open>activeNotes\<close>.  \<open>rate note elapsed h\<close> is the factor the
  acoustic model supplies for harmonic \<open>h\<close>: the decay rate times the optional brightness
  and noise-burst multipliers.  The loop over the partials skips an index without an entry
  in \<open>initialAmplitudes\<close>, which is what \<open>zip\<close> does.
\<close>

definition tickNote :: "(Voice \<Rightarrow> real \<Rightarrow> nat \<Rightarrow> real) \<Rightarrow> nat \<times> Voice \<Rightarrow> AdditiveSynth \<Rightarrow> AdditiveSynth" where
  "tickNote rate entry s =
     (let noteId = fst entry;
          note = snd entry;
          now = currentTime s;
          elapsed = now - startTime note;
          s1 = s\<lparr>partialPool :=
                   fold (\<lambda>(r, info).
                           setPartialGain r
                             (evolveGain now (initialAmp info * rate note elapsed (infoHarmonicNum info))))
                     (zip (partials note) (initialAmplitudes note)) (partialPool s)\<rparr>;
          maxPartialAmp = Math_max (partialGains s1 note);
          s2 = (if below maxPartialAmp 0.0005 \<and> elapsed > 0.5
                then (if map_of (pendingCleanups s1) noteId = None
                      then let (timeoutId, s') = setTimeout 200 (DecayCheck noteId) s1
                           in s'\<lparr>pendingCleanups := AList.update noteId timeoutId (pendingCleanups s')\<rparr>
                      else s1)
                else s1)
      in s2\<lparr>activeNotes := AList.update noteId (note\<lparr>lastUpdateTime := now\<rparr>) (activeNotes s2)\<rparr>)"

definition updateHarmonicEvolution :: "(Voice \<Rightarrow> real \<Rightarrow> nat \<Rightarrow> real) \<Rightarrow> AdditiveSynth \<Rightarrow> AdditiveSynth" where
  "updateHarmonicEvolution rate s = fold (tickNote rate) (activeNotes s) s"

section \<open>Timer callbacks\<close>

fun fireAction :: "AdditiveSynth \<Rightarrow> timerAction \<Rightarrow> AdditiveSynth" where
  "fireAction s (NoteOffCleanup noteId) =
     (let s1 = cleanupNote s noteId
      in s1\<lparr>pendingCleanups := AList.delete noteId (pendingCleanups s1)\<rparr>)"
| "fireAction s (DecayCheck noteId) =
     (let s1 = (case map_of (activeNotes s) noteId of
                  None \<Rightarrow> s
                | Some note \<Rightarrow>
                    if below (Math_max (partialGains s note)) 0.001 then cleanupNote s noteId else s)
      in s1\<lparr>pendingCleanups := AList.delete noteId (pendingCleanups s1)\<rparr>)"
| "fireAction s (PartialRelease r) =
     (let pp = partialPool s;
          pp1 = pp\<lparr>pool := (pool pp)[r := (pool pp ! r)\<lparr>connected := False\<rparr>]\<rparr>
      in s\<lparr>partialPool := release pp1 (Some r)\<rparr>)"
| "fireAction s (NoteGainDisconnect noteId) = s"

section \<open>Derived notions\<close>

text \<open>
  Two pool states allocate alike when they agree on the free list and on every partial's
  in-use flag and index; only gains, frequencies and wiring may differ.
\<close>

definition sameAlloc :: "PartialPool \<Rightarrow> PartialPool \<Rightarrow> bool" where
  "sameAlloc pp pp' =
     (available pp' = available pp \<and> map inUse (pool pp') = map inUse (pool pp) \<and>
      map index (pool pp') = map index (pool pp))"

text \<open>
  The state \<open>noteOff\<close> has built for voice \<open>note\<close> when it reaches its final branch on
  \<open>immediateCleanup\<close>: pending cleanup cancelled, release ramps applied.
\<close>

definition releasedState :: "AdditiveSynth \<Rightarrow> nat \<Rightarrow> Voice \<Rightarrow> real \<Rightarrow> AdditiveSynth" where
  "releasedState s noteId note releaseTime =
     (let s1 = cancelPendingCleanup noteId s;
          s2 = s1\<lparr>partialPool :=
                    fold (\<lambda>r. setPartialGain r (releaseRamp (currentTime s) (max 0.1 releaseTime)))
                      (partials note) (partialPool s)\<rparr>
      in if currentValue (gainNode note) < 0.99
         then s2\<lparr>activeNotes :=
                   AList.update noteId
                     (note\<lparr>gainNode := releaseRamp (currentTime s) (max 0.1 releaseTime) (gainNode note)\<rparr>)
                     (activeNotes s)\<rparr>
         else s2)"

section \<open>Example states\<close>

text \<open>A two-partial pool whose second partial is sounding and whose first is free.\<close>

definition examplePool :: PartialPool where
  "examplePool =
     \<lparr>pool = [newPartial 0,
              \<lparr>oscFrequency = 880,
               gain = \<lparr>currentValue = 1 / 4,
                       scheduled = [SetValueAtTime (1 / 4) 1, LinearRampToValueAtTime (1 / 1000) (11 / 10)]\<rparr>,
               connected = True, inUse = True, index = 1\<rparr>],
      available = [0]\<rparr>"

text \<open>A partial in use at live gain \<open>g\<close>, and a voice holding the partials \<open>ps\<close>.\<close>

definition soundingPartial :: "nat \<Rightarrow> real \<Rightarrow> real \<Rightarrow> Partial" where
  "soundingPartial i f g =
     \<lparr>oscFrequency = f, gain = \<lparr>currentValue = g, scheduled = []\<rparr>,
      connected = True, inUse = True, index = i\<rparr>"

definition exampleVoice :: "nat list \<Rightarrow> real \<Rightarrow> bool \<Rightarrow> bool \<Rightarrow> Voice" where
  "exampleVoice ps t0 kd pd =
     \<lparr>partials = ps, gainNode = \<lparr>currentValue = 1, scheduled = []\<rparr>, frequency = 440,
      velocity = 100, startTime = t0, keyDown = kd, pedalDown = pd,
      initialAmplitudes = map (\<lambda>i. \<lparr>infoHarmonicNum = Suc i, initialAmp = 1 / 2\<rparr>) [0..<length ps],
      lastUpdateTime = t0\<rparr>"

text \<open>
  Capacity 4, every partial in use: two pedal-sustained voices (key up) holding two
  partials each, at audio time 10.
\<close>

definition exhaustedSynth :: AdditiveSynth where
  "exhaustedSynth =
     \<lparr>currentTime = 10,
      partialPool = \<lparr>pool = [soundingPartial 0 880 (1 / 10), soundingPartial 1 440 (1 / 5),
                             soundingPartial 2 660 (1 / 50), soundingPartial 3 330 (1 / 25)],
                     available = []\<rparr>,
      activeNotes = [(1, exampleVoice [3, 2] 0 False True), (2, exampleVoice [1, 0] 5 False True)],
      pendingCleanups = [], maxPartials = 12, timers = [], nextTimerId = 1\<rparr>"

text \<open>
  Capacity 4, every partial in use: two pedal-sustained voices and one held voice, the held
  one being the quietest of the three.
\<close>

definition mixedSynth :: AdditiveSynth where
  "mixedSynth =
     \<lparr>currentTime = 10,
      partialPool = \<lparr>pool = [soundingPartial 0 880 (1 / 1000), soundingPartial 1 440 (1 / 5),
                             soundingPartial 2 660 (1 / 50), soundingPartial 3 330 (1 / 2)],
                     available = []\<rparr>,
      activeNotes = [(1, exampleVoice [3] 0 False True), (2, exampleVoice [2, 1] 5 False True),
                     (3, exampleVoice [0] 9 True False)],
      pendingCleanups = [], maxPartials = 12, timers = [], nextTimerId = 1\<rparr>"

text \<open>Two audible partial configurations.\<close>

definition exampleConfigs :: "Config list" where
  "exampleConfigs =
     [\<lparr>freq = 440, amp = 1 / 2, decay = 3 / 10, harmonicNum = 1\<rparr>,
      \<lparr>freq = 880, amp = 1 / 4, decay = 1 / 5, harmonicNum = 2\<rparr>]"

text \<open>
  Capacity 2, both partials held by one voice whose key is down; and the same engine one
  second later with a further voice 7 that holds no partial.
\<close>

definition heldSynth :: AdditiveSynth where
  "heldSynth =
     \<lparr>currentTime = 10,
      partialPool = \<lparr>pool = [soundingPartial 0 880 (1 / 10), soundingPartial 1 440 (1 / 5)], available = []\<rparr>,
      activeNotes = [(1, exampleVoice [1, 0] 9 True False)],
      pendingCleanups = [], maxPartials = 12, timers = [], nextTimerId = 1\<rparr>"

definition silentSynth :: AdditiveSynth where
  "silentSynth =
     heldSynth\<lparr>currentTime := 11,
               activeNotes := [(1, exampleVoice [1, 0] 9 True False), (7, exampleVoice [] 10 True False)]\<rparr>"

section \<open>The selection in the words of the specification\<close>

text \<open>
  What \<open>selectPartials\<close> keeps, read on the configurations themselves: a configuration is
  a candidate when its amplitude exceeds 0.001 and its frequency does not exceed 24000;
  the \<open>k\<close> loudest candidates are kept, loudest first, equal amplitudes in profile order.
\<close>

definition audible :: "Config \<Rightarrow> bool" where
  "audible c = (amp c > 0.001 \<and> freq c \<le> 24000)"

definition loudestAudible :: "int \<Rightarrow> Config list \<Rightarrow> Config list" where
  "loudestAudible k configs = take (nat k) (sort_key (\<lambda>c. - amp c) (filter audible configs))"

text \<open>
  The selection as the specification words it: discard a configuration whose amplitude is
  below 0.001 or whose frequency is above the maximum, sort the rest by amplitude
  descending, keep the top \<open>k\<close>.
\<close>

definition selection_spec :: "int \<Rightarrow> Config list \<Rightarrow> Config list" where
  "selection_spec k configs =
     take (nat k) (sort_key (\<lambda>c. - amp c) (filter (\<lambda>c. \<not> amp c < 0.001 \<and> \<not> freq c > 24000) configs))"

text \<open>The pool utilisation \<open>noteOn\<close> computes: \<open>1 - available / total\<close>, in double arithmetic.\<close>

definition poolUsageRatio :: "AdditiveSynth \<Rightarrow> real" where
  "poolUsageRatio s =
     fl64 (1 - fl64 (real (length (available (partialPool s))) / real (length (pool (partialPool s)))))"

text \<open>A configuration whose amplitude is exactly the threshold.\<close>

definition thresholdConfig :: Config where
  "thresholdConfig = \<lparr>freq = 440, amp = 1 / 1000, decay = 3 / 10, harmonicNum = 1\<rparr>"

text \<open>
  The engine after \<open>noteOn(1, 440, 127, true, false)\<close> on a fresh engine of capacity 4 at
  audio time 10, and after a second, identical \<open>noteOn\<close> for the same id.
\<close>

definition retrigger1 :: AdditiveSynth where
  "retrigger1 = snd (projr (noteOn (AdditiveSynth_new 4 10) 1 440 127 True False exampleConfigs))"

definition retrigger2 :: AdditiveSynth where
  "retrigger2 = snd (projr (noteOn retrigger1 1 440 127 True False exampleConfigs))"

text \<open>
  Capacity 4 with one partial free and three held by a voice whose key is down; a profile
  whose entries are out of amplitude order and include an inaudible and an out-of-range
  one; and the engine after \<open>noteOn(2, 440, 127, true, false)\<close> with that profile.
\<close>

definition nearlyFullSynth :: AdditiveSynth where
  "nearlyFullSynth =
     \<lparr>currentTime = 10,
      partialPool = \<lparr>pool = [newPartial 0, soundingPartial 1 440 (1 / 5),
                             soundingPartial 2 660 (1 / 50), soundingPartial 3 330 (1 / 2)],
                     available = [0]\<rparr>,
      activeNotes = [(1, exampleVoice [3, 2, 1] 9 True False)],
      pendingCleanups = [], maxPartials = 12, timers = [], nextTimerId = 1\<rparr>"

definition mixedConfigs :: "Config list" where
  "mixedConfigs =
     [\<lparr>freq = 880, amp = 1 / 4, decay = 1 / 5, harmonicNum = 2\<rparr>,
      \<lparr>freq = 1320, amp = 1 / 2000, decay = 1 / 10, harmonicNum = 3\<rparr>,
      \<lparr>freq = 440, amp = 1 / 2, decay = 3 / 10, harmonicNum = 1\<rparr>,
      \<lparr>freq = 30000, amp = 3 / 10, decay = 1 / 20, harmonicNum = 4\<rparr>]"

definition nearlyFullAfter :: AdditiveSynth where
  "nearlyFullAfter = snd (projr (noteOn nearlyFullSynth 2 440 127 True False mixedConfigs))"

section \<open>The pool invariant\<close>

lemma pool_wf_iff:
  "pool_wf pp \<longleftrightarrow>
     distinct (available pp) \<and> (\<forall>i\<in>set (available pp). i < length (pool pp)) \<and>
     (\<forall>i<length (pool pp). index (pool pp ! i) = i \<and> (inUse (pool pp ! i) \<longleftrightarrow> i \<notin> set (available pp)))"
  by (auto simp: pool_wf_def list_all_iff)

lemma pool_wf_new: "pool_wf (PartialPool_new n)"
  by (simp add: pool_wf_iff PartialPool_new_def newPartial_def)

lemma cancel0_times:
  "timesNonneg g \<Longrightarrow> scheduled (cancelScheduledValues 0 g) = []"
  by (auto simp: timesNonneg_def cancelScheduledValues_def list_all_iff filter_empty_conv not_less)

lemma available_nonempty_last:
  assumes "pool_wf pp" "available pp \<noteq> []"
  shows "last (available pp) < length (pool pp)" "\<not> inUse (pool pp ! last (available pp))"
        "last (available pp) \<notin> set (butlast (available pp))"
proof -
  have m: "last (available pp) \<in> set (available pp)" using assms(2) by simp
  show a: "last (available pp) < length (pool pp)" using assms(1) m by (simp add: pool_wf_iff)
  show "\<not> inUse (pool pp ! last (available pp))" using assms(1) m a by (simp add: pool_wf_iff)
  have "distinct (butlast (available pp) @ [last (available pp)])"
    using assms by (simp add: pool_wf_iff)
  then show "last (available pp) \<notin> set (butlast (available pp))" by simp
qed

lemma set_butlast_distinct:
  assumes "distinct xs" "xs \<noteq> []"
  shows "set (butlast xs) = set xs - {last xs}"
proof -
  have "distinct (butlast xs @ [last xs])" "set xs = set (butlast xs @ [last xs])" using assms by simp_all
  then show ?thesis by auto
qed

lemma acquire_empty: "available pp = [] \<Longrightarrow> acquire pp = Inr (None, pp)"
  by (simp add: acquire_def)

lemma acquire_nonempty:
  assumes "pool_wf pp" "available pp \<noteq> []"
  shows "acquire pp =
           Inr (Some (last (available pp)),
                pp\<lparr>available := butlast (available pp),
                   pool := (pool pp)[last (available pp) :=
                      (pool pp ! last (available pp))\<lparr>inUse := True,
                         gain := setValue 0 (cancelScheduledValues 0 (gain (pool pp ! last (available pp))))\<rparr>]\<rparr>)"
  using available_nonempty_last(1)[OF assms] assms(2) by (simp add: acquire_def Let_def)

lemma acquire_wf:
  assumes "pool_wf pp" "acquire pp = Inr (r, pp')"
  shows "pool_wf pp'" "length (pool pp') = length (pool pp)"
proof -
  show "length (pool pp') = length (pool pp)"
  proof (cases "available pp = []")
    case True then show ?thesis using assms(2) by (simp add: acquire_empty)
  next
    case False then show ?thesis using assms by (auto simp: acquire_nonempty)
  qed
  show "pool_wf pp'"
  proof (cases "available pp = []")
    case True then show ?thesis using assms by (simp add: acquire_empty)
  next
    case False
    have d: "distinct (available pp)" using assms(1) by (simp add: pool_wf_iff)
    note l = available_nonempty_last[OF assms(1) False]
    have sb: "set (butlast (available pp)) = set (available pp) - {last (available pp)}"
      by (rule set_butlast_distinct[OF d False])
    have pp': "pp' = pp\<lparr>available := butlast (available pp),
                   pool := (pool pp)[last (available pp) :=
                      (pool pp ! last (available pp))\<lparr>inUse := True,
                         gain := setValue 0 (cancelScheduledValues 0 (gain (pool pp ! last (available pp))))\<rparr>]\<rparr>"
      using assms(2) by (simp add: acquire_nonempty[OF assms(1) False])
    show ?thesis
      unfolding pool_wf_iff
    proof (intro conjI ballI allI impI iffI)
      show "distinct (available pp')" using d by (simp add: pp' distinct_butlast)
    next
      fix i assume "i \<in> set (available pp')"
      then have "i \<in> set (available pp)" by (simp add: pp' sb)
      then show "i < length (pool pp')" using assms(1) by (simp add: pp' pool_wf_iff)
    next
      fix i assume "i < length (pool pp')"
      then have i: "i < length (pool pp)" by (simp add: pp')
      then show "index (pool pp' ! i) = i" using assms(1) l(1)
        by (cases "i = last (available pp)") (simp_all add: pp' pool_wf_iff)
    next
      fix i assume "i < length (pool pp')" "inUse (pool pp' ! i)"
      then show "i \<notin> set (available pp')" using assms(1) l
        by (cases "i = last (available pp)") (simp_all add: pp' pool_wf_iff sb)
    next
      fix i assume "i < length (pool pp')" "i \<notin> set (available pp')"
      then show "inUse (pool pp' ! i)" using assms(1) l
        by (cases "i = last (available pp)") (simp_all add: pp' pool_wf_iff sb)
    qed
  qed
qed

lemma acquire_total: "pool_wf pp \<Longrightarrow> \<exists>r pp'. acquire pp = Inr (r, pp')"
  by (cases "available pp = []") (simp_all add: acquire_empty acquire_nonempty)

lemma release_free: "\<not> inUse (pool pp ! r) \<Longrightarrow> release pp (Some r) = pp"
  by (simp add: release_def)

lemma release_inUse:
  "inUse (pool pp ! r) \<Longrightarrow>
   release pp (Some r) =
     pp\<lparr>pool := (pool pp)[r := (pool pp ! r)\<lparr>inUse := False,
             gain := setValue 0 (cancelScheduledValues 0 (gain (pool pp ! r))), connected := False\<rparr>],
        available := available pp @ [index (pool pp ! r)]\<rparr>"
  by (simp add: release_def Let_def)

lemma release_length: "length (pool (release pp ref)) = length (pool pp)"
  by (cases ref) (simp_all add: release_def Let_def)

lemma release_wf:
  assumes "pool_wf pp" "r < length (pool pp)"
  shows "pool_wf (release pp (Some r))"
proof (cases "inUse (pool pp ! r)")
  case False then show ?thesis using assms by (simp add: release_free)
next
  case True
  have ix: "index (pool pp ! r) = r" and nin: "r \<notin> set (available pp)"
    using assms True by (simp_all add: pool_wf_iff)
  show ?thesis
    unfolding pool_wf_iff release_inUse[OF True] ix
  proof (intro conjI ballI allI impI)
    show "distinct (available (pp\<lparr>pool := (pool pp)[r := (pool pp ! r)\<lparr>inUse := False,
             gain := setValue 0 (cancelScheduledValues 0 (gain (pool pp ! r))), connected := False\<rparr>],
        available := available pp @ [r]\<rparr>))"
      using assms(1) nin by (simp add: pool_wf_iff)
  qed (use assms nin in \<open>auto simp: pool_wf_iff nth_list_update\<close>)
qed

lemma wf_count:
  assumes "pool_wf pp"
  shows "length (available pp) + inUseCount pp = length (pool pp)"
proof -
  have "set (available pp) = {i. i < length (pool pp) \<and> \<not> inUse (pool pp ! i)}"
    using assms by (auto simp: pool_wf_iff)
  moreover have "length (available pp) = card (set (available pp))"
    using assms by (simp add: pool_wf_iff distinct_card)
  ultimately have "length (available pp) = length (filter (\<lambda>p. \<not> inUse p) (pool pp))"
    by (simp add: length_filter_conv_card)
  then show ?thesis
    using sum_length_filter_compl[of inUse "pool pp"] by (simp add: inUseCount_def)
qed

lemma inUseCount_acquire:
  assumes "pool_wf pp" "available pp \<noteq> []" "acquire pp = Inr (r, pp')"
  shows "inUseCount pp' = Suc (inUseCount pp)"
proof -
  have "length (available pp') + inUseCount pp' = length (pool pp')"
    using acquire_wf(1)[OF assms(1,3)] by (rule wf_count)
  moreover have "length (available pp) + inUseCount pp = length (pool pp)"
    using assms(1) by (rule wf_count)
  moreover have "length (pool pp') = length (pool pp)" using acquire_wf(2)[OF assms(1,3)] .
  moreover have "length (available pp') = length (available pp) - 1" "length (available pp) > 0"
    using assms by (auto simp: acquire_nonempty)
  ultimately show ?thesis by linarith
qed

lemma poolRun_wf:
  "pool_wf pp \<Longrightarrow> list_all (callOk (length (pool pp))) calls \<Longrightarrow>
   \<exists>pp'. poolRun pp calls = Inr pp' \<and> pool_wf pp' \<and> length (pool pp') = length (pool pp)"
proof (induction calls arbitrary: pp)
  case Nil
  then show ?case by simp
next
  case (Cons c cs)
  have "\<exists>pp1. poolStep pp c = Inr pp1 \<and> pool_wf pp1 \<and> length (pool pp1) = length (pool pp)"
  proof (cases c)
    case Acquire
    obtain r pp1 where a: "acquire pp = Inr (r, pp1)" using acquire_total[OF Cons.prems(1)] by blast
    then show ?thesis using acquire_wf[OF Cons.prems(1) a] Acquire by simp
  next
    case (Release ref)
    show ?thesis
    proof (cases ref)
      case None
      then show ?thesis using Release Cons.prems(1) by (simp add: release_def)
    next
      case (Some r)
      then have "r < length (pool pp)" using Cons.prems(2) Release by simp
      then show ?thesis using Release Some Cons.prems(1) by (simp add: release_wf release_length)
    qed
  qed
  then obtain pp1 where s: "poolStep pp c = Inr pp1" "pool_wf pp1" "length (pool pp1) = length (pool pp)"
    by blast
  have "list_all (callOk (length (pool pp1))) cs" using Cons.prems(2) s(3) by simp
  from Cons.IH[OF s(2) this] show ?case using s by auto
qed

lemma wf_indices: "pool_wf pp \<Longrightarrow> map index (pool pp) = [0..<length (pool pp)]"
  by (rule nth_equalityI) (simp_all add: pool_wf_iff)

lemma poolRun_acquires:
  "pool_wf pp \<Longrightarrow>
   \<exists>pp'. poolRun pp (replicate k Acquire) = Inr pp' \<and>
         inUseCount pp' = min (length (pool pp)) (inUseCount pp + k)"
proof (induction k arbitrary: pp)
  case 0
  then show ?case using wf_count[of pp] by simp
next
  case (Suc k)
  obtain r pp1 where a: "acquire pp = Inr (r, pp1)" using acquire_total[OF Suc.prems] by blast
  note w = acquire_wf[OF Suc.prems a]
  from Suc.IH[OF w(1)] obtain pp' where
    r: "poolRun pp1 (replicate k Acquire) = Inr pp'"
       "inUseCount pp' = min (length (pool pp1)) (inUseCount pp1 + k)" by blast
  have c: "inUseCount pp1 + k = (if available pp = [] then inUseCount pp + k else inUseCount pp + Suc k)"
    using inUseCount_acquire[OF Suc.prems _ a] a by (auto simp: acquire_empty)
  have "available pp = [] \<Longrightarrow> inUseCount pp = length (pool pp)" using wf_count[OF Suc.prems] by simp
  then have "min (length (pool pp1)) (inUseCount pp1 + k) = min (length (pool pp)) (inUseCount pp + Suc k)"
    using c w(2) by auto
  then show ?case using r a by simp
qed

text \<open>
  Claim C1.  Start from a freshly constructed pool of capacity \<open>n\<close> and make any sequence
  of \<open>acquire\<close> and \<open>release\<close> calls, each release being handed null or one of the
  pool's partials.  After every call of the sequence (every prefix \<open>take k calls\<close>) no call
  has thrown, the free list and the partials flagged in-use together number \<open>n\<close>, and the
  array still holds exactly the \<open>n\<close> partials created by the constructor, in place.
\<close>

theorem pool_invariant:
  assumes "list_all (callOk n) calls" and "k \<le> length calls"
  shows "\<exists>pp. poolRun (PartialPool_new n) (take k calls) = Inr pp \<and>
              length (available pp) + inUseCount pp = n \<and>
              length (pool pp) = n \<and> map index (pool pp) = [0..<n]"
proof -
  have n: "length (pool (PartialPool_new n)) = n" by (simp add: PartialPool_new_def)
  have "list_all (callOk (length (pool (PartialPool_new n)))) (take k calls)"
    using assms(1) by (auto simp: n list_all_iff dest: in_set_takeD)
  from poolRun_wf[OF pool_wf_new this] obtain pp where
    p: "poolRun (PartialPool_new n) (take k calls) = Inr pp" "pool_wf pp" "length (pool pp) = n"
    by (auto simp: n)
  show ?thesis using p wf_count[OF p(2)] wf_indices[OF p(2)] by simp
qed

theorem pool_invariant_witness:
  "list_all (callOk 2) [Acquire, Acquire, Release (Some 1), Acquire, Release (Some 1), Release (Some 1), Release None]
   \<and> (3::nat) \<le> length [Acquire, Acquire, Release (Some 1), Acquire, Release (Some 1), Release (Some 1), Release None]
   \<and> (\<exists>pp. poolRun (PartialPool_new 2) [Acquire, Acquire, Release (Some 1)] = Inr pp \<and>
              length (available pp) + inUseCount pp = 2 \<and>
              length (pool pp) = 2 \<and> map index (pool pp) = [0..<2])"
  using pool_invariant[of 2 "[Acquire, Acquire, Release (Some 1), Acquire, Release (Some 1), Release (Some 1), Release None]" 3]
  by (simp add: numeral_3_eq_3)

text \<open>
  Claim C5.  On every pool state satisfying the representation invariant \<open>pool_wf\<close> (which
  the constructor establishes and \<open>acquire\<close> and \<open>release\<close> preserve), \<open>acquire\<close> does
  not throw.  With an empty free list it returns null and leaves the pool alone.  Otherwise
  it returns a partial that was free, now flagged in-use, with gain value 0 and, the
  timeline holding no negative times, no scheduled event left.  Any number \<open>k\<close> of
  successive requests is answered without a throw and leaves
  \<open>min capacity (inUse + k)\<close> partials in use, never more than the capacity.
\<close>

theorem acquire_never_throws:
  assumes "pool_wf pp"
  shows "(available pp = [] \<longrightarrow> acquire pp = Inr (None, pp)) \<and>
         (available pp \<noteq> [] \<longrightarrow>
            (\<exists>r pp'. acquire pp = Inr (Some r, pp') \<and> r < length (pool pp) \<and>
               \<not> inUse (pool pp ! r) \<and> inUse (pool pp' ! r) \<and>
               currentValue (gain (pool pp' ! r)) = 0 \<and>
               (timesNonneg (gain (pool pp ! r)) \<longrightarrow> scheduled (gain (pool pp' ! r)) = []) \<and>
               pool_wf pp' \<and> length (pool pp') = length (pool pp) \<and>
               inUseCount pp' = Suc (inUseCount pp))) \<and>
         (\<exists>pp'. poolRun pp (replicate k Acquire) = Inr pp' \<and>
            inUseCount pp' = min (length (pool pp)) (inUseCount pp + k) \<and>
            inUseCount pp' \<le> length (pool pp))"
proof (intro conjI impI)
  show "acquire pp = Inr (None, pp)" if "available pp = []" using that by (rule acquire_empty)
next
  assume ne: "available pp \<noteq> []"
  let ?r = "last (available pp)"
  obtain pp' where a: "acquire pp = Inr (Some ?r, pp')"
    and pp': "pp' = pp\<lparr>available := butlast (available pp),
                   pool := (pool pp)[?r := (pool pp ! ?r)\<lparr>inUse := True,
                         gain := setValue 0 (cancelScheduledValues 0 (gain (pool pp ! ?r)))\<rparr>]\<rparr>"
    using acquire_nonempty[OF assms ne] by simp
  note l = available_nonempty_last[OF assms ne]
  have "inUse (pool pp' ! ?r)" "currentValue (gain (pool pp' ! ?r)) = 0"
       "timesNonneg (gain (pool pp ! ?r)) \<longrightarrow> scheduled (gain (pool pp' ! ?r)) = []"
    using l(1) by (simp_all add: pp' setValue_def cancel0_times)
  then show "\<exists>r pp'. acquire pp = Inr (Some r, pp') \<and> r < length (pool pp) \<and>
               \<not> inUse (pool pp ! r) \<and> inUse (pool pp' ! r) \<and>
               currentValue (gain (pool pp' ! r)) = 0 \<and>
               (timesNonneg (gain (pool pp ! r)) \<longrightarrow> scheduled (gain (pool pp' ! r)) = []) \<and>
               pool_wf pp' \<and> length (pool pp') = length (pool pp) \<and>
               inUseCount pp' = Suc (inUseCount pp)"
    using a l acquire_wf[OF assms a] inUseCount_acquire[OF assms ne a] by blast
next
  show "\<exists>pp'. poolRun pp (replicate k Acquire) = Inr pp' \<and>
            inUseCount pp' = min (length (pool pp)) (inUseCount pp + k) \<and>
            inUseCount pp' \<le> length (pool pp)"
    using poolRun_acquires[OF assms, of k] by auto
qed

lemma examplePool_wf: "pool_wf examplePool"
  by (simp add: pool_wf_def examplePool_def newPartial_def)

theorem acquire_never_throws_witness:
  "pool_wf examplePool \<and>
   (\<exists>r pp'. acquire examplePool = Inr (Some r, pp') \<and> inUse (pool pp' ! r) \<and>
       currentValue (gain (pool pp' ! r)) = 0 \<and> scheduled (gain (pool pp' ! r)) = []) \<and>
   (\<exists>pp'. poolRun examplePool (replicate 3 Acquire) = Inr pp' \<and> inUseCount pp' \<le> 2)"
proof -
  have w: "pool_wf examplePool" by (rule examplePool_wf)
  have ne: "available examplePool \<noteq> []" by (simp add: examplePool_def)
  have t: "timesNonneg (gain (pool examplePool ! 0))"
    by (simp add: examplePool_def newPartial_def timesNonneg_def)
  have l: "length (pool examplePool) = 2" by (simp add: examplePool_def)
  from acquire_never_throws[OF w, of 3] ne obtain r pp' where
    "acquire examplePool = Inr (Some r, pp')" "inUse (pool pp' ! r)" "currentValue (gain (pool pp' ! r)) = 0"
    "timesNonneg (gain (pool examplePool ! r)) \<longrightarrow> scheduled (gain (pool pp' ! r)) = []"
    "\<exists>pp'. poolRun examplePool (replicate 3 Acquire) = Inr pp' \<and> inUseCount pp' \<le> 2"
    unfolding l by blast
  moreover from this(1) have "r = 0" by (simp add: acquire_def examplePool_def Let_def)
  ultimately show ?thesis using w t by blast
qed

text \<open>
  Claim C6.  For every partial \<open>r\<close> of a pool satisfying the representation invariant:
  releasing null changes nothing; releasing \<open>r\<close> while it is free changes nothing;
  releasing \<open>r\<close> twice in a row equals releasing it once; the invariant of the free list
  survives the call; and releasing \<open>r\<close> while it is in use marks it free, sets its gain
  value to 0, leaves no scheduled event (the timeline holding no negative times), appends
  its index to the free list and touches no other partial.
\<close>

theorem release_idempotent:
  assumes "pool_wf pp" and "r < length (pool pp)"
  shows "release pp None = pp \<and>
         (\<not> inUse (pool pp ! r) \<longrightarrow> release pp (Some r) = pp) \<and>
         release (release pp (Some r)) (Some r) = release pp (Some r) \<and>
         pool_wf (release pp (Some r)) \<and>
         (inUse (pool pp ! r) \<longrightarrow>
            \<not> inUse (pool (release pp (Some r)) ! r) \<and>
            currentValue (gain (pool (release pp (Some r)) ! r)) = 0 \<and>
            (timesNonneg (gain (pool pp ! r)) \<longrightarrow> scheduled (gain (pool (release pp (Some r)) ! r)) = []) \<and>
            available (release pp (Some r)) = available pp @ [r] \<and>
            (\<forall>j<length (pool pp). j \<noteq> r \<longrightarrow> pool (release pp (Some r)) ! j = pool pp ! j))"
proof (intro conjI impI)
  show "release pp None = pp" by (simp add: release_def)
  show "release pp (Some r) = pp" if "\<not> inUse (pool pp ! r)" using that by (rule release_free)
  show "pool_wf (release pp (Some r))" using assms by (rule release_wf)
  have free: "\<not> inUse (pool (release pp (Some r)) ! r)"
    using assms(2) by (cases "inUse (pool pp ! r)") (simp_all add: release_free release_inUse)
  then show "release (release pp (Some r)) (Some r) = release pp (Some r)" by (rule release_free)
  assume u: "inUse (pool pp ! r)"
  have ix: "index (pool pp ! r) = r" using assms by (simp add: pool_wf_iff)
  show "\<not> inUse (pool (release pp (Some r)) ! r)" by (rule free)
  show "currentValue (gain (pool (release pp (Some r)) ! r)) = 0"
    using assms(2) by (simp add: release_inUse[OF u] setValue_def)
  show "scheduled (gain (pool (release pp (Some r)) ! r)) = []" if "timesNonneg (gain (pool pp ! r))"
    using assms(2) that by (simp add: release_inUse[OF u] setValue_def cancel0_times)
  show "available (release pp (Some r)) = available pp @ [r]"
    by (simp add: release_inUse[OF u] ix)
  show "\<forall>j<length (pool pp). j \<noteq> r \<longrightarrow> pool (release pp (Some r)) ! j = pool pp ! j"
    by (simp add: release_inUse[OF u])
qed

theorem release_idempotent_witness:
  "pool_wf examplePool \<and> 1 < length (pool examplePool) \<and> inUse (pool examplePool ! 1) \<and>
   timesNonneg (gain (pool examplePool ! 1)) \<and>
   release (release examplePool (Some 1)) (Some 1) = release examplePool (Some 1) \<and>
   available (release examplePool (Some 1)) = [0, 1] \<and>
   scheduled (gain (pool (release examplePool (Some 1)) ! 1)) = []"
proof -
  have h: "pool_wf examplePool" "1 < length (pool examplePool)" "inUse (pool examplePool ! 1)"
    "timesNonneg (gain (pool examplePool ! 1))" "available examplePool = [0]"
    by (simp_all add: examplePool_wf, simp_all add: examplePool_def timesNonneg_def)
  show ?thesis using release_idempotent[OF h(1,2)] h by simp
qed

section \<open>Gain updates on pooled partials\<close>

lemma setPartialGain_nth:
  "pool (setPartialGain r f pp) ! i =
     (if i = r \<and> r < length (pool pp) then (pool pp ! r)\<lparr>gain := f (gain (pool pp ! r))\<rparr> else pool pp ! i)"
  by (cases "r < length (pool pp)") (simp_all add: setPartialGain_def nth_list_update list_update_beyond)

lemma setPartialGain_length: "length (pool (setPartialGain r f pp)) = length (pool pp)"
  by (simp add: setPartialGain_def)

lemma fold_setGain_notin:
  "r \<notin> set rs \<Longrightarrow> pool (fold (\<lambda>r. setPartialGain r f) rs pp) ! r = pool pp ! r"
  by (induction rs arbitrary: pp) (simp_all add: setPartialGain_nth)

lemma fold_setGain_length:
  "length (pool (fold (\<lambda>r. setPartialGain r f) rs pp)) = length (pool pp)"
  by (induction rs arbitrary: pp) (simp_all add: setPartialGain_length)

lemma fold_setGain_in:
  "distinct rs \<Longrightarrow> r \<in> set rs \<Longrightarrow> r < length (pool pp) \<Longrightarrow>
   pool (fold (\<lambda>r. setPartialGain r f) rs pp) ! r = (pool pp ! r)\<lparr>gain := f (gain (pool pp ! r))\<rparr>"
proof (induction rs arbitrary: pp)
  case Nil
  then show ?case by simp
next
  case (Cons a rs)
  show ?case
  proof (cases "r = a")
    case True
    then have "r \<notin> set rs" using Cons.prems(1) by simp
    then show ?thesis using True Cons.prems(3) by (simp add: fold_setGain_notin setPartialGain_nth)
  next
    case False
    then have "pool (fold (\<lambda>r. setPartialGain r f) rs (setPartialGain a f pp)) ! r
                = (pool (setPartialGain a f pp) ! r)\<lparr>gain := f (gain (pool (setPartialGain a f pp) ! r))\<rparr>"
      using Cons.prems by (intro Cons.IH) (simp_all add: setPartialGain_length)
    then show ?thesis using False by (simp add: setPartialGain_nth)
  qed
qed

lemma setPartialGain_osc:
  "oscFrequency (pool (setPartialGain r f pp) ! i) = oscFrequency (pool pp ! i)"
  by (simp add: setPartialGain_nth)

lemma fold_setGain_osc:
  "oscFrequency (pool (fold (\<lambda>r. setPartialGain r (f r)) rs pp) ! i) = oscFrequency (pool pp ! i)"
  by (induction rs arbitrary: pp) (simp_all add: setPartialGain_osc)

section \<open>Calls that leave the allocation alone\<close>

lemma sameAlloc_refl: "sameAlloc pp pp"
  by (simp add: sameAlloc_def)

lemma sameAlloc_trans: "sameAlloc a b \<Longrightarrow> sameAlloc b c \<Longrightarrow> sameAlloc a c"
  by (simp add: sameAlloc_def)

lemma sameAlloc_length: "sameAlloc pp pp' \<Longrightarrow> length (pool pp') = length (pool pp)"
  by (auto simp: sameAlloc_def dest: map_eq_imp_length_eq)

lemma sameAlloc_nth:
  assumes "sameAlloc pp pp'" "i < length (pool pp)"
  shows "inUse (pool pp' ! i) = inUse (pool pp ! i)" "index (pool pp' ! i) = index (pool pp ! i)"
proof -
  have l: "length (pool pp') = length (pool pp)" using assms(1) by (rule sameAlloc_length)
  have "map inUse (pool pp') ! i = map inUse (pool pp) ! i" "map index (pool pp') ! i = map index (pool pp) ! i"
    using assms(1) by (simp_all add: sameAlloc_def)
  then show "inUse (pool pp' ! i) = inUse (pool pp ! i)" "index (pool pp' ! i) = index (pool pp ! i)"
    using assms(2) l by simp_all
qed

lemma sameAlloc_wf: "sameAlloc pp pp' \<Longrightarrow> pool_wf pp \<Longrightarrow> pool_wf pp'"
  unfolding pool_wf_iff
  using sameAlloc_length[of pp pp'] sameAlloc_nth[of pp pp']
  by (auto simp: sameAlloc_def)

lemma map_list_update_same: "f y = f (xs ! i) \<Longrightarrow> map f (xs[i := y]) = map f xs"
  by (metis list_update_id map_update)

lemma sameAlloc_setPartialGain: "sameAlloc pp (setPartialGain r f pp)"
  by (simp add: sameAlloc_def setPartialGain_def map_list_update_same)

lemma sameAlloc_fold_gain:
  "sameAlloc pp (fold (\<lambda>r. setPartialGain r (f r)) rs pp)"
proof (induction rs arbitrary: pp)
  case Nil
  then show ?case by (simp add: sameAlloc_refl)
next
  case (Cons r rs)
  show ?case using sameAlloc_trans[OF sameAlloc_setPartialGain Cons.IH] by simp
qed

lemma cancelPendingCleanup_fields [simp]:
  "partialPool (cancelPendingCleanup noteId s) = partialPool s"
  "activeNotes (cancelPendingCleanup noteId s) = activeNotes s"
  "currentTime (cancelPendingCleanup noteId s) = currentTime s"
  "maxPartials (cancelPendingCleanup noteId s) = maxPartials s"
  by (simp_all add: cancelPendingCleanup_def split: option.splits)

lemma setTimeout_fields [simp]:
  "partialPool (snd (setTimeout ms a s)) = partialPool s"
  "activeNotes (snd (setTimeout ms a s)) = activeNotes s"
  "currentTime (snd (setTimeout ms a s)) = currentTime s"
  "maxPartials (snd (setTimeout ms a s)) = maxPartials s"
  "pendingCleanups (snd (setTimeout ms a s)) = pendingCleanups s"
  "timers (snd (setTimeout ms a s)) = timers s @ [(nextTimerId s, ms, a)]"
  "nextTimerId (snd (setTimeout ms a s)) = Suc (nextTimerId s)"
  "fst (setTimeout ms a s) = nextTimerId s"
  by (simp_all add: setTimeout_def)

lemma cleanupPartial_fields [simp]:
  "activeNotes (cleanupPartial now r s) = activeNotes s"
  "currentTime (cleanupPartial now r s) = currentTime s"
  "maxPartials (cleanupPartial now r s) = maxPartials s"
  "pendingCleanups (cleanupPartial now r s) = pendingCleanups s"
  "partialPool (cleanupPartial now r s) = setPartialGain r (cleanupFade now) (partialPool s)"
  by (simp_all add: cleanupPartial_def)

lemma fold_cleanupPartial_fields [simp]:
  "activeNotes (fold (cleanupPartial now) rs s) = activeNotes s"
  "currentTime (fold (cleanupPartial now) rs s) = currentTime s"
  "maxPartials (fold (cleanupPartial now) rs s) = maxPartials s"
  "pendingCleanups (fold (cleanupPartial now) rs s) = pendingCleanups s"
  by (induction rs arbitrary: s) simp_all

lemma fold_cleanupPartial_pool:
  "partialPool (fold (cleanupPartial now) rs s) =
     fold (\<lambda>r. setPartialGain r (cleanupFade now)) rs (partialPool s)"
  by (induction rs arbitrary: s) simp_all

lemma cleanupNote_basic:
  "currentTime (cleanupNote s noteId) = currentTime s"
  "maxPartials (cleanupNote s noteId) = maxPartials s"
  "sameAlloc (partialPool s) (partialPool (cleanupNote s noteId))"
  by (simp_all add: cleanupNote_def Let_def fold_cleanupPartial_pool sameAlloc_refl sameAlloc_fold_gain
      split: option.splits)

lemma noteOff_None: "map_of (activeNotes s) noteId = None \<Longrightarrow> noteOff s noteId rt im = s"
  by (simp add: noteOff_def)

lemma noteOff_immediate:
  "map_of (activeNotes s) noteId = Some v \<Longrightarrow>
   noteOff s noteId rt True = cleanupNote (releasedState s noteId v rt) noteId"
  by (simp add: noteOff_def releasedState_def Let_def)

lemma noteOff_deferred:
  "map_of (activeNotes s) noteId = Some v \<Longrightarrow>
   noteOff s noteId rt False =
     (releasedState s noteId v rt)
       \<lparr>timers := timers (releasedState s noteId v rt)
                   @ [(nextTimerId (releasedState s noteId v rt), rt * 1000 + 100, NoteOffCleanup noteId)],
        nextTimerId := Suc (nextTimerId (releasedState s noteId v rt)),
        pendingCleanups := AList.update noteId (nextTimerId (releasedState s noteId v rt))
                             (pendingCleanups (releasedState s noteId v rt))\<rparr>"
  by (simp add: noteOff_def releasedState_def Let_def setTimeout_def)

lemma releasedState_fields:
  "currentTime (releasedState s noteId v rt) = currentTime s"
  "maxPartials (releasedState s noteId v rt) = maxPartials s"
  "partialPool (releasedState s noteId v rt) =
     fold (\<lambda>r. setPartialGain r (releaseRamp (currentTime s) (max 0.1 rt))) (partials v) (partialPool s)"
  by (simp_all add: releasedState_def Let_def)

lemma noteOff_basic:
  "currentTime (noteOff s noteId rt im) = currentTime s"
  "maxPartials (noteOff s noteId rt im) = maxPartials s"
  "sameAlloc (partialPool s) (partialPool (noteOff s noteId rt im))"
proof -
  show "currentTime (noteOff s noteId rt im) = currentTime s"
    by (cases "map_of (activeNotes s) noteId"; cases im)
       (simp_all add: noteOff_None noteOff_immediate noteOff_deferred cleanupNote_basic releasedState_fields)
  show "maxPartials (noteOff s noteId rt im) = maxPartials s"
    by (cases "map_of (activeNotes s) noteId"; cases im)
       (simp_all add: noteOff_None noteOff_immediate noteOff_deferred cleanupNote_basic releasedState_fields)
  show "sameAlloc (partialPool s) (partialPool (noteOff s noteId rt im))"
  proof (cases "map_of (activeNotes s) noteId")
    case None
    then show ?thesis by (simp add: noteOff_None sameAlloc_refl)
  next
    case (Some v)
    have a: "sameAlloc (partialPool s) (partialPool (releasedState s noteId v rt))"
      by (simp add: releasedState_fields sameAlloc_fold_gain)
    show ?thesis
    proof (cases im)
      case True
      show ?thesis using sameAlloc_trans[OF a cleanupNote_basic(3)] Some True
        by (simp add: noteOff_immediate)
    next
      case False
      show ?thesis using a Some False by (simp add: noteOff_deferred)
    qed
  qed
qed

lemma steal_basic:
  "currentTime (snd (stealVoiceFromQuietestSustainedNote s)) = currentTime s"
  "maxPartials (snd (stealVoiceFromQuietestSustainedNote s)) = maxPartials s"
  "sameAlloc (partialPool s) (partialPool (snd (stealVoiceFromQuietestSustainedNote s)))"
  by (simp_all add: stealVoiceFromQuietestSustainedNote_def noteOff_basic sameAlloc_refl split: option.splits)

lemma cleanupNote_osc:
  "oscFrequency (pool (partialPool (cleanupNote s noteId)) ! i) = oscFrequency (pool (partialPool s) ! i)"
  by (simp add: cleanupNote_def Let_def fold_cleanupPartial_pool fold_setGain_osc split: option.splits)

lemma noteOff_osc:
  "oscFrequency (pool (partialPool (noteOff s noteId rt im)) ! i) = oscFrequency (pool (partialPool s) ! i)"
  by (cases "map_of (activeNotes s) noteId"; cases im)
     (simp_all add: noteOff_None noteOff_immediate noteOff_deferred cleanupNote_osc releasedState_fields
        fold_setGain_osc)

lemma steal_osc:
  "oscFrequency (pool (partialPool (snd (stealVoiceFromQuietestSustainedNote s))) ! i)
     = oscFrequency (pool (partialPool s) ! i)"
  by (simp add: stealVoiceFromQuietestSustainedNote_def noteOff_osc split: option.splits)

section \<open>The acquisition loop\<close>

lemma acquireOrSteal_exhausted:
  assumes "available (partialPool s) = []"
  shows "acquireOrSteal s = Inr (None, snd (stealVoiceFromQuietestSustainedNote s))"
proof -
  obtain res s1 where st: "stealVoiceFromQuietestSustainedNote s = (res, s1)" by force
  have "available (partialPool s1) = []"
    using steal_basic(3)[of s] st assms by (simp add: sameAlloc_def)
  then have "acquire (partialPool s1) = Inr (None, partialPool s1)" by (rule acquire_empty)
  then show ?thesis using st acquire_empty[OF assms] by (cases res) (simp_all add: acquireOrSteal_def)
qed

lemma acquireOrSteal_free:
  assumes "pool_wf (partialPool s)" "available (partialPool s) \<noteq> []"
  shows "\<exists>pp. acquire (partialPool s) = Inr (Some (last (available (partialPool s))), pp) \<and>
              acquireOrSteal s = Inr (Some (last (available (partialPool s))), s\<lparr>partialPool := pp\<rparr>)"
  using acquire_nonempty[OF assms] by (simp add: acquireOrSteal_def)

lemma acquireLoop_exhausted:
  assumes "available (partialPool s) = []"
  shows "acquireLoop s vel now cfgs ps ias =
           Inr (if list_all (\<lambda>c. freq c > 24000) cfgs then s
                else snd (stealVoiceFromQuietestSustainedNote s), ps, ias)"
  by (induction cfgs) (simp_all add: acquireOrSteal_exhausted[OF assms])

lemma configurePartial_basic:
  "currentTime (configurePartial s vel c now r) = currentTime s"
  "maxPartials (configurePartial s vel c now r) = maxPartials s"
  "activeNotes (configurePartial s vel c now r) = activeNotes s"
  "sameAlloc (partialPool s) (partialPool (configurePartial s vel c now r))"
  by (simp_all add: configurePartial_def Let_def sameAlloc_def map_list_update_same)

lemma acquire_inUse_mono:
  assumes "pool_wf pp" "acquire pp = Inr (r, pp')" "i < length (pool pp)" "inUse (pool pp ! i)"
  shows "inUse (pool pp' ! i)"
proof (cases "available pp = []")
  case True
  then show ?thesis using assms by (simp add: acquire_empty)
next
  case False
  then show ?thesis using assms acquire_nonempty[OF assms(1) False]
    by (cases "i = last (available pp)") auto
qed

lemma acquire_available:
  assumes "pool_wf pp" "acquire pp = Inr (r, pp')"
  shows "available pp' = butlast (available pp)"
proof (cases "available pp = []")
  case True
  then show ?thesis using assms by (simp add: acquire_empty)
next
  case False
  then show ?thesis using assms acquire_nonempty[OF assms(1) False] by auto
qed

lemma acquire_osc:
  assumes "pool_wf pp" "acquire pp = Inr (r, pp')"
  shows "oscFrequency (pool pp' ! i) = oscFrequency (pool pp ! i)"
proof (cases "available pp = []")
  case True
  then show ?thesis using assms by (simp add: acquire_empty)
next
  case False
  then show ?thesis
    using assms(2) acquire_nonempty[OF assms(1) False] available_nonempty_last(1)[OF assms(1) False]
    by (cases "i = last (available pp)") auto
qed

lemma configurePartial_osc:
  "oscFrequency (pool (partialPool (configurePartial s vel c now r)) ! i) =
     (if i = r \<and> r < length (pool (partialPool s)) then freq c
      else oscFrequency (pool (partialPool s) ! i))"
  by (cases "r < length (pool (partialPool s))")
     (simp_all add: configurePartial_def Let_def nth_list_update list_update_beyond)

lemma take_rev_butlast:
  "xs \<noteq> [] \<Longrightarrow> take (Suc k) (rev xs) = last xs # take k (rev (butlast xs))"
  by (cases xs rule: rev_cases) simp_all

lemma acquireLoop_char:
  assumes "pool_wf (partialPool s)"
  shows "\<exists>s1. acquireLoop s vel now cfgs ps ias =
            Inr (s1,
                 ps @ take (min (length (filter (\<lambda>c. \<not> freq c > 24000) cfgs)) (length (available (partialPool s))))
                        (rev (available (partialPool s))),
                 ias @ map (\<lambda>c. \<lparr>infoHarmonicNum = harmonicNum c, initialAmp = amp c\<rparr>)
                        (take (min (length (filter (\<lambda>c. \<not> freq c > 24000) cfgs)) (length (available (partialPool s))))
                           (filter (\<lambda>c. \<not> freq c > 24000) cfgs))) \<and>
            pool_wf (partialPool s1) \<and>
            length (pool (partialPool s1)) = length (pool (partialPool s)) \<and>
            available (partialPool s1) =
              take (length (available (partialPool s))
                      - min (length (filter (\<lambda>c. \<not> freq c > 24000) cfgs)) (length (available (partialPool s))))
                (available (partialPool s)) \<and>
            (\<forall>i<length (pool (partialPool s)). inUse (pool (partialPool s) ! i) \<longrightarrow> inUse (pool (partialPool s1) ! i)) \<and>
            (\<forall>i. i \<notin> set (available (partialPool s)) \<longrightarrow>
                 oscFrequency (pool (partialPool s1) ! i) = oscFrequency (pool (partialPool s) ! i)) \<and>
            (\<forall>j<min (length (filter (\<lambda>c. \<not> freq c > 24000) cfgs)) (length (available (partialPool s))).
                 oscFrequency (pool (partialPool s1) ! (rev (available (partialPool s)) ! j))
                   = freq (filter (\<lambda>c. \<not> freq c > 24000) cfgs ! j)) \<and>
            currentTime s1 = currentTime s \<and> maxPartials s1 = maxPartials s"
  using assms
proof (induction cfgs arbitrary: s ps ias)
  case Nil
  then show ?case by simp
next
  case (Cons c rest)
  show ?case
  proof (cases "freq c > 24000")
    case True
    then show ?thesis using Cons.IH[OF Cons.prems, of ps ias] by simp
  next
    case False
    show ?thesis
    proof (cases "available (partialPool s) = []")
      case True
      let ?s1 = "snd (stealVoiceFromQuietestSustainedNote s)"
      have sa: "sameAlloc (partialPool s) (partialPool ?s1)" by (rule steal_basic)
      have "acquireLoop s vel now (c # rest) ps ias = Inr (?s1, ps, ias)"
        using False by (simp add: acquireOrSteal_exhausted[OF True])
      moreover have "pool_wf (partialPool ?s1)" using sameAlloc_wf[OF sa Cons.prems] .
      moreover have "available (partialPool ?s1) = []" using sa True by (simp add: sameAlloc_def)
      moreover have "\<forall>i<length (pool (partialPool s)). inUse (pool (partialPool s) ! i) \<longrightarrow> inUse (pool (partialPool ?s1) ! i)"
        using sameAlloc_nth(1)[OF sa] by simp
      ultimately show ?thesis using True sameAlloc_length[OF sa] steal_basic(1,2)[of s]
        by (simp add: steal_osc)
    next
      case False
      note ne = False
      let ?av = "available (partialPool s)"
      let ?r = "last ?av"
      let ?F = "filter (\<lambda>c. \<not> freq c > 24000) rest"
      obtain pp where a: "acquire (partialPool s) = Inr (Some ?r, pp)"
        and b: "acquireOrSteal s = Inr (Some ?r, s\<lparr>partialPool := pp\<rparr>)"
        using acquireOrSteal_free[OF Cons.prems ne] by blast
      let ?s2 = "configurePartial (s\<lparr>partialPool := pp\<rparr>) vel c now ?r"
      have sa: "sameAlloc pp (partialPool ?s2)"
        using configurePartial_basic(4)[of "s\<lparr>partialPool := pp\<rparr>"] by simp
      note w = acquire_wf[OF Cons.prems a]
      note l = available_nonempty_last[OF Cons.prems ne]
      have wf2: "pool_wf (partialPool ?s2)" using sameAlloc_wf[OF sa w(1)] .
      have av2: "available (partialPool ?s2) = butlast ?av"
        using sa acquire_available[OF Cons.prems a] by (simp add: sameAlloc_def)
      have len2: "length (pool (partialPool ?s2)) = length (pool (partialPool s))"
        using sameAlloc_length[OF sa] w(2) by simp
      have mono2: "\<forall>i<length (pool (partialPool s)). inUse (pool (partialPool s) ! i) \<longrightarrow> inUse (pool (partialPool ?s2) ! i)"
        using acquire_inUse_mono[OF Cons.prems a] sameAlloc_nth(1)[OF sa] w(2) by simp
      have osc2: "\<And>i. oscFrequency (pool (partialPool ?s2) ! i) =
                     (if i = ?r then freq c else oscFrequency (pool (partialPool s) ! i))"
        using l(1) w(2) by (simp add: configurePartial_osc acquire_osc[OF Cons.prems a])
      let ?ps = "ps @ [?r]"
      let ?ias = "ias @ [\<lparr>infoHarmonicNum = harmonicNum c, initialAmp = amp c\<rparr>]"
      let ?m = "length ?F"
      let ?k = "min ?m (length (butlast ?av))"
      from Cons.IH[OF wf2, of ?ps ?ias] obtain s1 where
        ih: "acquireLoop ?s2 vel now rest ?ps ?ias =
            Inr (s1,
                 ?ps @ take (min ?m (length (available (partialPool ?s2)))) (rev (available (partialPool ?s2))),
                 ?ias @ map (\<lambda>c. \<lparr>infoHarmonicNum = harmonicNum c, initialAmp = amp c\<rparr>)
                        (take (min ?m (length (available (partialPool ?s2)))) ?F))"
          "pool_wf (partialPool s1)"
          "length (pool (partialPool s1)) = length (pool (partialPool ?s2))"
          "available (partialPool s1) =
              take (length (available (partialPool ?s2)) - min ?m (length (available (partialPool ?s2))))
                (available (partialPool ?s2))"
          "\<forall>i<length (pool (partialPool ?s2)). inUse (pool (partialPool ?s2) ! i) \<longrightarrow> inUse (pool (partialPool s1) ! i)"
          "\<forall>i. i \<notin> set (available (partialPool ?s2)) \<longrightarrow>
                 oscFrequency (pool (partialPool s1) ! i) = oscFrequency (pool (partialPool ?s2) ! i)"
          "\<forall>j<min ?m (length (available (partialPool ?s2))).
                 oscFrequency (pool (partialPool s1) ! (rev (available (partialPool ?s2)) ! j)) = freq (?F ! j)"
          "currentTime s1 = currentTime ?s2" "maxPartials s1 = maxPartials ?s2"
        by blast
      have lav: "length ?av = Suc (length (butlast ?av))" using ne by simp
      have k: "min (Suc ?m) (length ?av) = Suc ?k"
        using lav by simp
      have t1: "take (Suc ?k) (rev ?av) = ?r # take ?k (rev (butlast ?av))"
        by (rule take_rev_butlast[OF ne])
      have t2: "take (length (butlast ?av) - ?k) (butlast ?av) = take (length ?av - Suc ?k) ?av"
      proof -
        have "length (butlast ?av) - ?k < length ?av" using lav by simp
        then have "take (length (butlast ?av) - ?k) (butlast ?av) = take (length (butlast ?av) - ?k) ?av"
          by (rule take_butlast)
        moreover have "length (butlast ?av) - ?k = length ?av - Suc ?k" using lav by simp
        ultimately show ?thesis by simp
      qed
      have t1': "last ?av # take (min ?m (length ?av - Suc 0)) (rev (butlast ?av))
                  = take (Suc (min ?m (length ?av - Suc 0))) (rev ?av)"
        using t1 by simp
      have t2': "take (length ?av - Suc (min ?m (length ?av - Suc 0))) (butlast ?av)
                  = take (length ?av - Suc (min ?m (length ?av - Suc 0))) ?av"
        using t2 by simp
      have revav: "rev ?av = ?r # rev (butlast ?av)" using ne by (cases ?av rule: rev_cases) simp_all
      have sb: "set (butlast ?av) \<subseteq> set ?av" by (auto dest: in_set_butlastD)
      have rnot: "?r \<notin> set (butlast ?av)" by (rule l(3))
      have run: "acquireLoop s vel now (c # rest) ps ias = acquireLoop ?s2 vel now rest ?ps ?ias"
        using \<open>\<not> freq c > 24000\<close> b by simp
      have c1: "acquireLoop s vel now (c # rest) ps ias =
            Inr (s1,
                 ps @ take (min (length (filter (\<lambda>c. \<not> freq c > 24000) (c # rest))) (length ?av)) (rev ?av),
                 ias @ map (\<lambda>c. \<lparr>infoHarmonicNum = harmonicNum c, initialAmp = amp c\<rparr>)
                        (take (min (length (filter (\<lambda>c. \<not> freq c > 24000) (c # rest))) (length ?av))
                           (filter (\<lambda>c. \<not> freq c > 24000) (c # rest))))"
        using \<open>\<not> freq c > 24000\<close> t1' by (simp add: run ih(1) av2 k del: acquireLoop.simps)
      have c4: "available (partialPool s1) =
              take (length ?av - min (length (filter (\<lambda>c. \<not> freq c > 24000) (c # rest))) (length ?av)) ?av"
        using \<open>\<not> freq c > 24000\<close> t2' by (simp add: ih(4) av2 k)
      have c5: "\<forall>i<length (pool (partialPool s)). inUse (pool (partialPool s) ! i) \<longrightarrow> inUse (pool (partialPool s1) ! i)"
        using ih(5) mono2 len2 by simp
      have c6: "\<forall>i. i \<notin> set ?av \<longrightarrow>
                 oscFrequency (pool (partialPool s1) ! i) = oscFrequency (pool (partialPool s) ! i)"
      proof (intro allI impI)
        fix i assume i: "i \<notin> set ?av"
        then have "i \<notin> set (butlast ?av)" using sb by auto
        then have "oscFrequency (pool (partialPool s1) ! i) = oscFrequency (pool (partialPool ?s2) ! i)"
          using ih(6) av2 by simp
        moreover have "i \<noteq> ?r" using i ne by auto
        ultimately show "oscFrequency (pool (partialPool s1) ! i) = oscFrequency (pool (partialPool s) ! i)"
          by (simp add: osc2)
      qed
      have c7: "\<forall>j<min (length (filter (\<lambda>c. \<not> freq c > 24000) (c # rest))) (length ?av).
                 oscFrequency (pool (partialPool s1) ! (rev ?av ! j))
                   = freq (filter (\<lambda>c. \<not> freq c > 24000) (c # rest) ! j)"
      proof (intro allI impI)
        fix j assume "j < min (length (filter (\<lambda>c. \<not> freq c > 24000) (c # rest))) (length ?av)"
        then have j: "j < Suc ?k" using \<open>\<not> freq c > 24000\<close> k by simp
        show "oscFrequency (pool (partialPool s1) ! (rev ?av ! j))
                   = freq (filter (\<lambda>c. \<not> freq c > 24000) (c # rest) ! j)"
        proof (cases j)
          case 0
          have "oscFrequency (pool (partialPool s1) ! ?r) = oscFrequency (pool (partialPool ?s2) ! ?r)"
            using ih(6) rnot av2 by simp
          then show ?thesis using 0 \<open>\<not> freq c > 24000\<close> by (simp add: revav osc2)
        next
          case (Suc j')
          then have "j' < min ?m (length (available (partialPool ?s2)))" using j av2 by simp
          then have "oscFrequency (pool (partialPool s1) ! (rev (available (partialPool ?s2)) ! j')) = freq (?F ! j')"
            using ih(7) by blast
          then show ?thesis using Suc \<open>\<not> freq c > 24000\<close> by (simp add: revav av2)
        qed
      qed
      show ?thesis
        using c1 ih(2) ih(3) len2 c4 c5 c6 c7 ih(8) ih(9)
        by (intro exI[of _ s1]) (simp add: configurePartial_basic)
    qed
  qed
qed

section \<open>The release envelope and the cleanup\<close>

lemma fold_cleanupPartial_timers_mono:
  "x \<in> set (timers s) \<Longrightarrow> x \<in> set (timers (fold (cleanupPartial now) rs s))"
  by (induction rs arbitrary: s) (simp_all add: cleanupPartial_def)

lemma fold_cleanupPartial_timers:
  "r \<in> set rs \<Longrightarrow> \<exists>tid. (tid, 15, PartialRelease r) \<in> set (timers (fold (cleanupPartial now) rs s))"
proof (induction rs arbitrary: s)
  case Nil
  then show ?case by simp
next
  case (Cons a rs)
  show ?case
  proof (cases "r = a")
    case True
    have "(nextTimerId s, 15, PartialRelease r) \<in> set (timers (cleanupPartial now a s))"
      using True by (simp add: cleanupPartial_def)
    then have "(nextTimerId s, 15, PartialRelease r) \<in> set (timers (fold (cleanupPartial now) rs (cleanupPartial now a s)))"
      by (rule fold_cleanupPartial_timers_mono)
    then show ?thesis by auto
  next
    case False
    then show ?thesis using Cons by simp
  qed
qed

lemma cleanupNote_pool:
  "map_of (activeNotes s) noteId = Some v \<Longrightarrow>
   partialPool (cleanupNote s noteId) =
     fold (\<lambda>r. setPartialGain r (cleanupFade (currentTime s))) (partials v) (partialPool s)"
  by (simp add: cleanupNote_def Let_def fold_cleanupPartial_pool)

lemma cleanupNote_timers:
  assumes "map_of (activeNotes s) noteId = Some v" "r \<in> set (partials v)"
  shows "\<exists>tid. (tid, 15, PartialRelease r) \<in> set (timers (cleanupNote s noteId))"
proof -
  obtain tid where "(tid, 15, PartialRelease r)
      \<in> set (timers (fold (cleanupPartial (currentTime s)) (partials v) (cancelPendingCleanup noteId s)))"
    using fold_cleanupPartial_timers[OF assms(2)] by blast
  then have "(tid, 15, PartialRelease r) \<in> set (timers (cleanupNote s noteId))"
    using assms(1) by (simp add: cleanupNote_def Let_def)
  then show ?thesis by blast
qed

lemma releasedState_active:
  assumes "map_of (activeNotes s) noteId = Some v"
  shows "\<exists>v'. map_of (activeNotes (releasedState s noteId v rt)) noteId = Some v' \<and> partials v' = partials v"
  using assms by (simp add: releasedState_def Let_def update_conv')

lemma fade_after_ramp:
  assumes "0 \<le> d"
  shows "cleanupFade now (releaseRamp now d g) =
           \<lparr>currentValue = currentValue g,
            scheduled = filter (\<lambda>e. eventTime e < now) (scheduled g)
               @ (if currentValue g > 0.001
                  then [SetValueAtTime (currentValue g) now, ExponentialRampToValueAtTime 0.001 (now + 0.01)]
                  else [SetValueAtTime 0 now])\<rparr>"
  using assms
  by (simp add: cleanupFade_def releaseRamp_def Let_def cancelScheduledValues_def setValueAtTime_def
      linearRampToValueAtTime_def exponentialRampToValueAtTime_def)

lemma releaseRamp_eq:
  "releaseRamp now d g =
     \<lparr>currentValue = currentValue g,
      scheduled = filter (\<lambda>e. eventTime e < now) (scheduled g)
         @ [SetValueAtTime (currentValue g) now,
            if d < 0.15 then LinearRampToValueAtTime 0.001 (now + d)
            else ExponentialRampToValueAtTime 0.001 (now + d)]\<rparr>"
  by (simp add: releaseRamp_def Let_def cancelScheduledValues_def setValueAtTime_def
      linearRampToValueAtTime_def exponentialRampToValueAtTime_def)

lemma cleanupNote_removes: "map_of (activeNotes (cleanupNote s k)) k = None"
  by (cases "map_of (activeNotes s) k") (simp_all add: cleanupNote_def Let_def delete_conv')

text \<open>
  The deferred path of \<open>noteOff\<close>, for every registered voice: the cleanup timer is queued
  with delay releaseTime * 1000 + 100 ms and recorded as pending; each partial of the voice
  (the references being distinct) carries the events before now, the current value
  anchored at now and one ramp to 0.001 ending at now + max(0.1, releaseTime), linear when
  that duration is below 0.15 s and exponential otherwise; no other voice and no other
  partial is touched.
\<close>

lemma noteOff_deferred_timer:
  assumes "map_of (activeNotes s) noteId = Some v"
  shows "(nextTimerId s, rt * 1000 + 100, NoteOffCleanup noteId) \<in> set (timers (noteOff s noteId rt False))"
    and "map_of (pendingCleanups (noteOff s noteId rt False)) noteId = Some (nextTimerId s)"
    and "nextTimerId (noteOff s noteId rt False) = Suc (nextTimerId s)"
proof -
  have n: "nextTimerId (releasedState s noteId v rt) = nextTimerId s"
    by (simp add: releasedState_def Let_def cancelPendingCleanup_def split: option.splits)
  show "(nextTimerId s, rt * 1000 + 100, NoteOffCleanup noteId) \<in> set (timers (noteOff s noteId rt False))"
    and "map_of (pendingCleanups (noteOff s noteId rt False)) noteId = Some (nextTimerId s)"
    and "nextTimerId (noteOff s noteId rt False) = Suc (nextTimerId s)"
    by (simp_all add: noteOff_deferred[OF assms] update_conv' n)
qed

lemma noteOff_deferred_gain:
  assumes "map_of (activeNotes s) noteId = Some v"
    and "distinct (partials v)" and "r \<in> set (partials v)" and "r < length (pool (partialPool s))"
  shows "gain (pool (partialPool (noteOff s noteId rt False)) ! r) =
           \<lparr>currentValue = currentValue (gain (pool (partialPool s) ! r)),
            scheduled = filter (\<lambda>e. eventTime e < currentTime s) (scheduled (gain (pool (partialPool s) ! r)))
               @ [SetValueAtTime (currentValue (gain (pool (partialPool s) ! r))) (currentTime s),
                  if max 0.1 rt < 0.15
                  then LinearRampToValueAtTime 0.001 (currentTime s + max 0.1 rt)
                  else ExponentialRampToValueAtTime 0.001 (currentTime s + max 0.1 rt)]\<rparr>"
proof -
  let ?R = "releasedState s noteId v rt"
  let ?g = "gain (pool (partialPool s) ! r)"
  have pR: "pool (partialPool ?R) ! r = (pool (partialPool s) ! r)\<lparr>gain := releaseRamp (currentTime s) (max 0.1 rt) ?g\<rparr>"
    by (simp add: releasedState_fields fold_setGain_in[OF assms(2,3,4)])
  have "partialPool (noteOff s noteId rt False) = partialPool ?R"
    by (simp add: noteOff_deferred[OF assms(1)])
  then have "gain (pool (partialPool (noteOff s noteId rt False)) ! r) =
               releaseRamp (currentTime s) (max 0.1 rt) ?g"
    by (simp add: pR)
  then show ?thesis by (simp only: releaseRamp_eq)
qed

lemma noteOff_deferred_others:
  assumes "map_of (activeNotes s) noteId = Some v"
  shows "k \<noteq> noteId \<Longrightarrow> map_of (activeNotes (noteOff s noteId rt False)) k = map_of (activeNotes s) k"
    and "r \<notin> set (partials v) \<Longrightarrow> pool (partialPool (noteOff s noteId rt False)) ! r = pool (partialPool s) ! r"
  by (simp_all add: noteOff_deferred[OF assms] releasedState_def Let_def update_conv' fold_setGain_notin)


section \<open>Voice stealing\<close>

lemma stealScan_cases:
  "(foldl (stealStep s) (None, None) xs = (None, None) \<and> (\<forall>e\<in>set xs. \<not> stealEligible (snd e))) \<or>
   (\<exists>noteId note. foldl (stealStep s) (None, None) xs = (Some noteId, Some (stealScore s note)) \<and>
       (noteId, note) \<in> set xs \<and> stealEligible note \<and>
       (\<forall>e\<in>set xs. stealEligible (snd e) \<longrightarrow> stealScore s note \<le> stealScore s (snd e)))"
proof (induction xs rule: rev_induct)
  case Nil
  then show ?case by simp
next
  case (snoc x xs)
  show ?case
  proof (cases "stealEligible (snd x)")
    case False
    then have "foldl (stealStep s) (None, None) (xs @ [x]) = foldl (stealStep s) (None, None) xs"
      by (simp add: stealStep_def)
    then show ?thesis using snoc False by auto
  next
    case True
    note el = True
    from snoc show ?thesis
    proof (elim disjE conjE exE)
      assume "foldl (stealStep s) (None, None) xs = (None, None)" "\<forall>e\<in>set xs. \<not> stealEligible (snd e)"
      then have "foldl (stealStep s) (None, None) (xs @ [x]) = (Some (fst x), Some (stealScore s (snd x)))"
        "\<forall>e\<in>set (xs @ [x]). stealEligible (snd e) \<longrightarrow> stealScore s (snd x) \<le> stealScore s (snd e)"
        using el by (auto simp: stealStep_def)
      moreover have "(fst x, snd x) \<in> set (xs @ [x])" by simp
      ultimately show ?thesis using el by blast
    next
      fix noteId nt
      assume a: "foldl (stealStep s) (None, None) xs = (Some noteId, Some (stealScore s nt))"
        "(noteId, nt) \<in> set xs" "stealEligible nt"
        "\<forall>e\<in>set xs. stealEligible (snd e) \<longrightarrow> stealScore s nt \<le> stealScore s (snd e)"
      show ?thesis
      proof (cases "stealScore s (snd x) < stealScore s nt")
        case True
        note lt = True
        have "foldl (stealStep s) (None, None) (xs @ [x]) = (Some (fst x), Some (stealScore s (snd x)))"
          using a(1) el lt by (simp add: stealStep_def)
        moreover have "\<forall>e\<in>set (xs @ [x]). stealEligible (snd e) \<longrightarrow> stealScore s (snd x) \<le> stealScore s (snd e)"
          using a(4) lt by fastforce
        moreover have "(fst x, snd x) \<in> set (xs @ [x])" by simp
        ultimately show ?thesis using el by blast
      next
        case False
        note ge = False
        have "foldl (stealStep s) (None, None) (xs @ [x]) = (Some noteId, Some (stealScore s nt))"
          using a(1) el ge by (simp add: stealStep_def)
        moreover have "\<forall>e\<in>set (xs @ [x]). stealEligible (snd e) \<longrightarrow> stealScore s nt \<le> stealScore s (snd e)"
          using a(4) ge by auto
        moreover have "(noteId, nt) \<in> set (xs @ [x])" using a(2) by simp
        ultimately show ?thesis using a(3) by blast
      qed
    qed
  qed
qed

lemma steal_none:
  assumes "\<forall>e\<in>set (activeNotes s). \<not> stealEligible (snd e)"
  shows "stealVoiceFromQuietestSustainedNote s = (None, s)"
  using stealScan_cases[of s "activeNotes s"] assms
  by (auto simp: stealVoiceFromQuietestSustainedNote_def)

text \<open>
  Claim C4.  Whenever voice stealing runs (it runs exactly when \<open>acquire\<close> has reported
  exhaustion), with every voice started no later than the current audio time: no voice is
  selected exactly when no voice is eligible; a selected voice has its key up and holds at
  least one partial, so a held voice is never selected; its score
  \<open>effectiveVolume / (1 + age * 0.1)\<close> is minimal among all eligible voices; and it is the
  voice released, by the forced 50 ms \<open>noteOff\<close>: the \<open>NoteOffCleanup\<close> timer for it is
  queued with a delay of 150 ms and recorded as its pending cleanup, the callback of that
  timer removes the voice, and each of its partials (its references being distinct pool
  indices) gets the release envelope, the current gain anchored at now and a linear ramp to
  0.001 over 0.1 s.  No other voice and no partial of another voice is touched.
\<close>

theorem steal_respects_held:
  assumes "distinct (map fst (activeNotes s))"
    and "list_all (\<lambda>e. startTime (snd e) \<le> currentTime s) (activeNotes s)"
  shows "(fst (stealVoiceFromQuietestSustainedNote s) = None \<longleftrightarrow>
            (\<forall>e\<in>set (activeNotes s). \<not> stealEligible (snd e))) \<and>
         (fst (stealVoiceFromQuietestSustainedNote s) = None \<longrightarrow>
            snd (stealVoiceFromQuietestSustainedNote s) = s) \<and>
         (\<forall>noteId. fst (stealVoiceFromQuietestSustainedNote s) = Some noteId \<longrightarrow>
            (\<exists>note. map_of (activeNotes s) noteId = Some note \<and>
               \<not> keyDown note \<and> partials note \<noteq> [] \<and>
               (\<forall>e\<in>set (activeNotes s). \<not> keyDown (snd e) \<and> partials (snd e) \<noteq> [] \<longrightarrow>
                    stealScore s note \<le> stealScore s (snd e)) \<and>
               snd (stealVoiceFromQuietestSustainedNote s) = noteOff s noteId 0.05 False \<and>
               (nextTimerId s, 150, NoteOffCleanup noteId)
                 \<in> set (timers (snd (stealVoiceFromQuietestSustainedNote s))) \<and>
               map_of (pendingCleanups (snd (stealVoiceFromQuietestSustainedNote s))) noteId
                 = Some (nextTimerId s) \<and>
               map_of (activeNotes (fireAction (snd (stealVoiceFromQuietestSustainedNote s))
                                      (NoteOffCleanup noteId))) noteId = None \<and>
               (distinct (partials note) \<longrightarrow>
                  (\<forall>r\<in>set (partials note). r < length (pool (partialPool s)) \<longrightarrow>
                     gain (pool (partialPool (snd (stealVoiceFromQuietestSustainedNote s))) ! r) =
                       \<lparr>currentValue = currentValue (gain (pool (partialPool s) ! r)),
                        scheduled =
                          filter (\<lambda>e. eventTime e < currentTime s) (scheduled (gain (pool (partialPool s) ! r)))
                            @ [SetValueAtTime (currentValue (gain (pool (partialPool s) ! r))) (currentTime s),
                               LinearRampToValueAtTime 0.001 (currentTime s + 0.1)]\<rparr>)) \<and>
               (\<forall>k. k \<noteq> noteId \<longrightarrow>
                  map_of (activeNotes (snd (stealVoiceFromQuietestSustainedNote s))) k
                    = map_of (activeNotes s) k) \<and>
               (\<forall>r. r \<notin> set (partials note) \<longrightarrow>
                  pool (partialPool (snd (stealVoiceFromQuietestSustainedNote s))) ! r
                    = pool (partialPool s) ! r)))"
proof -
  from stealScan_cases[of s "activeNotes s"] show ?thesis
  proof (elim disjE conjE exE)
    assume "foldl (stealStep s) (None, None) (activeNotes s) = (None, None)"
      "\<forall>e\<in>set (activeNotes s). \<not> stealEligible (snd e)"
    then show ?thesis by (simp add: stealVoiceFromQuietestSustainedNote_def)
  next
    fix noteId nt
    assume a: "foldl (stealStep s) (None, None) (activeNotes s) = (Some noteId, Some (stealScore s nt))"
      "(noteId, nt) \<in> set (activeNotes s)" "stealEligible nt"
      "\<forall>e\<in>set (activeNotes s). stealEligible (snd e) \<longrightarrow> stealScore s nt \<le> stealScore s (snd e)"
    let ?s' = "noteOff s noteId 0.05 False"
    have m: "map_of (activeNotes s) noteId = Some nt"
      using assms(1) a(2) by simp
    have r: "stealVoiceFromQuietestSustainedNote s = (Some noteId, ?s')"
      using a(1) m by (simp add: stealVoiceFromQuietestSustainedNote_def)
    have ex: "\<exists>e\<in>set (activeNotes s). stealEligible (snd e)" using a(2,3) by force
    have el: "\<not> keyDown nt" "partials nt \<noteq> []" using a(3) by (simp_all add: stealEligible_def)
    have mn: "\<forall>e\<in>set (activeNotes s). \<not> keyDown (snd e) \<and> partials (snd e) \<noteq> [] \<longrightarrow>
                stealScore s nt \<le> stealScore s (snd e)"
      using a(4) by (simp add: stealEligible_def)
    have t1: "(nextTimerId s, 150, NoteOffCleanup noteId) \<in> set (timers ?s')"
      using noteOff_deferred_timer(1)[OF m, of "0.05"] by simp
    have t2: "map_of (pendingCleanups ?s') noteId = Some (nextTimerId s)"
      by (rule noteOff_deferred_timer(2)[OF m])
    have t3: "map_of (activeNotes (fireAction ?s' (NoteOffCleanup noteId))) noteId = None"
      by (simp add: Let_def cleanupNote_removes)
    have g: "distinct (partials nt) \<longrightarrow>
               (\<forall>r\<in>set (partials nt). r < length (pool (partialPool s)) \<longrightarrow>
                  gain (pool (partialPool ?s') ! r) =
                    \<lparr>currentValue = currentValue (gain (pool (partialPool s) ! r)),
                     scheduled =
                       filter (\<lambda>e. eventTime e < currentTime s) (scheduled (gain (pool (partialPool s) ! r)))
                         @ [SetValueAtTime (currentValue (gain (pool (partialPool s) ! r))) (currentTime s),
                            LinearRampToValueAtTime 0.001 (currentTime s + 0.1)]\<rparr>)"
    proof (intro impI ballI)
      fix r
      assume d: "distinct (partials nt)" and i: "r \<in> set (partials nt)"
        and l: "r < length (pool (partialPool s))"
      show "gain (pool (partialPool ?s') ! r) =
              \<lparr>currentValue = currentValue (gain (pool (partialPool s) ! r)),
               scheduled =
                 filter (\<lambda>e. eventTime e < currentTime s) (scheduled (gain (pool (partialPool s) ! r)))
                   @ [SetValueAtTime (currentValue (gain (pool (partialPool s) ! r))) (currentTime s),
                      LinearRampToValueAtTime 0.001 (currentTime s + 0.1)]\<rparr>"
        using noteOff_deferred_gain[OF m d i l, of "0.05"] by simp
    qed
    have o1: "\<forall>k. k \<noteq> noteId \<longrightarrow> map_of (activeNotes ?s') k = map_of (activeNotes s) k"
      using noteOff_deferred_others(1)[OF m] by blast
    have o2: "\<forall>r. r \<notin> set (partials nt) \<longrightarrow> pool (partialPool ?s') ! r = pool (partialPool s) ! r"
      using noteOff_deferred_others(2)[OF m] by blast
    have "\<exists>note. map_of (activeNotes s) noteId = Some note \<and>
               \<not> keyDown note \<and> partials note \<noteq> [] \<and>
               (\<forall>e\<in>set (activeNotes s). \<not> keyDown (snd e) \<and> partials (snd e) \<noteq> [] \<longrightarrow>
                    stealScore s note \<le> stealScore s (snd e)) \<and>
               ?s' = noteOff s noteId 0.05 False \<and>
               (nextTimerId s, 150, NoteOffCleanup noteId) \<in> set (timers ?s') \<and>
               map_of (pendingCleanups ?s') noteId = Some (nextTimerId s) \<and>
               map_of (activeNotes (fireAction ?s' (NoteOffCleanup noteId))) noteId = None \<and>
               (distinct (partials note) \<longrightarrow>
                  (\<forall>r\<in>set (partials note). r < length (pool (partialPool s)) \<longrightarrow>
                     gain (pool (partialPool ?s') ! r) =
                       \<lparr>currentValue = currentValue (gain (pool (partialPool s) ! r)),
                        scheduled =
                          filter (\<lambda>e. eventTime e < currentTime s) (scheduled (gain (pool (partialPool s) ! r)))
                            @ [SetValueAtTime (currentValue (gain (pool (partialPool s) ! r))) (currentTime s),
                               LinearRampToValueAtTime 0.001 (currentTime s + 0.1)]\<rparr>)) \<and>
               (\<forall>k. k \<noteq> noteId \<longrightarrow> map_of (activeNotes ?s') k = map_of (activeNotes s) k) \<and>
               (\<forall>r. r \<notin> set (partials note) \<longrightarrow> pool (partialPool ?s') ! r = pool (partialPool s) ! r)"
      using m el mn t1 t2 t3 g o1 o2 by (intro exI[of _ nt] conjI) simp_all
    then show ?thesis using ex by (simp add: r)
  qed
qed

theorem steal_respects_held_witness:
  "distinct (map fst (activeNotes mixedSynth)) \<and>
   list_all (\<lambda>e. startTime (snd e) \<le> currentTime mixedSynth) (activeNotes mixedSynth) \<and>
   fst (stealVoiceFromQuietestSustainedNote mixedSynth) = Some 2 \<and>
   map_of (activeNotes mixedSynth) 2 = Some (exampleVoice [2, 1] 5 False True) \<and>
   map_of (activeNotes mixedSynth) 3 = Some (exampleVoice [0] 9 True False) \<and>
   stealScore mixedSynth (exampleVoice [2, 1] 5 False True) = 11 / 150 \<and>
   stealScore mixedSynth (exampleVoice [3] 0 False True) = 1 / 4 \<and>
   stealScore mixedSynth (exampleVoice [0] 9 True False) = 1 / 1100 \<and>
   (1, 150, NoteOffCleanup 2) \<in> set (timers (snd (stealVoiceFromQuietestSustainedNote mixedSynth))) \<and>
   map_of (pendingCleanups (snd (stealVoiceFromQuietestSustainedNote mixedSynth))) 2 = Some 1 \<and>
   gain (pool (partialPool (snd (stealVoiceFromQuietestSustainedNote mixedSynth))) ! 2) =
     \<lparr>currentValue = 1 / 50,
      scheduled = [SetValueAtTime (1 / 50) 10, LinearRampToValueAtTime (1 / 1000) (101 / 10)]\<rparr> \<and>
   gain (pool (partialPool (snd (stealVoiceFromQuietestSustainedNote mixedSynth))) ! 1) =
     \<lparr>currentValue = 1 / 5,
      scheduled = [SetValueAtTime (1 / 5) 10, LinearRampToValueAtTime (1 / 1000) (101 / 10)]\<rparr> \<and>
   pool (partialPool (snd (stealVoiceFromQuietestSustainedNote mixedSynth))) ! 0 = soundingPartial 0 880 (1 / 1000) \<and>
   pool (partialPool (snd (stealVoiceFromQuietestSustainedNote mixedSynth))) ! 3 = soundingPartial 3 330 (1 / 2) \<and>
   map_of (activeNotes (snd (stealVoiceFromQuietestSustainedNote mixedSynth))) 3 = Some (exampleVoice [0] 9 True False)"
proof -
  have d: "distinct (map fst (activeNotes mixedSynth))"
    and t: "list_all (\<lambda>e. startTime (snd e) \<le> currentTime mixedSynth) (activeNotes mixedSynth)"
    by (simp_all add: mixedSynth_def exampleVoice_def)
  have r: "fst (stealVoiceFromQuietestSustainedNote mixedSynth) = Some 2"
    by (simp add: stealVoiceFromQuietestSustainedNote_def mixedSynth_def stealStep_def stealEligible_def
      stealScore_def exampleVoice_def soundingPartial_def Let_def)
  have m: "map_of (activeNotes mixedSynth) 2 = Some (exampleVoice [2, 1] 5 False True)"
    "map_of (activeNotes mixedSynth) 3 = Some (exampleVoice [0] 9 True False)"
    by (simp_all add: mixedSynth_def)
  have sc: "stealScore mixedSynth (exampleVoice [2, 1] 5 False True) = 11 / 150"
    "stealScore mixedSynth (exampleVoice [3] 0 False True) = 1 / 4"
    "stealScore mixedSynth (exampleVoice [0] 9 True False) = 1 / 1100"
    by (simp_all add: stealScore_def mixedSynth_def exampleVoice_def soundingPartial_def Let_def)
  have p: "nextTimerId mixedSynth = 1" "currentTime mixedSynth = 10"
    "length (pool (partialPool mixedSynth)) = 4"
    "pool (partialPool mixedSynth) ! 0 = soundingPartial 0 880 (1 / 1000)"
    "pool (partialPool mixedSynth) ! 1 = soundingPartial 1 440 (1 / 5)"
    "pool (partialPool mixedSynth) ! 2 = soundingPartial 2 660 (1 / 50)"
    "pool (partialPool mixedSynth) ! 3 = soundingPartial 3 330 (1 / 2)"
    by (simp_all add: mixedSynth_def)
  have q: "gain (soundingPartial 1 440 (1 / 5)) = \<lparr>currentValue = 1 / 5, scheduled = []\<rparr>"
    "gain (soundingPartial 2 660 (1 / 50)) = \<lparr>currentValue = 1 / 50, scheduled = []\<rparr>"
    by (simp_all add: soundingPartial_def)
  let ?s' = "snd (stealVoiceFromQuietestSustainedNote mixedSynth)"
  let ?v = "exampleVoice [2, 1] 5 False True"
  have pv: "partials ?v = [2, 1]" by (simp add: exampleVoice_def)
  note th = steal_respects_held[OF d t, THEN conjunct2, THEN conjunct2, rule_format, OF r]
  from th obtain nt where
    n: "map_of (activeNotes mixedSynth) 2 = Some nt"
      "(nextTimerId mixedSynth, 150, NoteOffCleanup 2) \<in> set (timers ?s')"
      "map_of (pendingCleanups ?s') 2 = Some (nextTimerId mixedSynth)"
      "distinct (partials nt) \<longrightarrow>
         (\<forall>r\<in>set (partials nt). r < length (pool (partialPool mixedSynth)) \<longrightarrow>
            gain (pool (partialPool ?s') ! r) =
              \<lparr>currentValue = currentValue (gain (pool (partialPool mixedSynth) ! r)),
               scheduled =
                 filter (\<lambda>e. eventTime e < currentTime mixedSynth)
                   (scheduled (gain (pool (partialPool mixedSynth) ! r)))
                   @ [SetValueAtTime (currentValue (gain (pool (partialPool mixedSynth) ! r)))
                        (currentTime mixedSynth),
                      LinearRampToValueAtTime 0.001 (currentTime mixedSynth + 0.1)]\<rparr>)"
      "\<forall>k. k \<noteq> 2 \<longrightarrow> map_of (activeNotes ?s') k = map_of (activeNotes mixedSynth) k"
      "\<forall>r. r \<notin> set (partials nt) \<longrightarrow> pool (partialPool ?s') ! r = pool (partialPool mixedSynth) ! r"
    by (elim exE conjE) (rule that; assumption)
  have nt: "nt = ?v" using n(1) m(1) by simp
  have g: "\<And>r. r \<in> set [2, 1] \<Longrightarrow>
            gain (pool (partialPool ?s') ! r) =
              \<lparr>currentValue = currentValue (gain (pool (partialPool mixedSynth) ! r)),
               scheduled =
                 filter (\<lambda>e. eventTime e < 10) (scheduled (gain (pool (partialPool mixedSynth) ! r)))
                   @ [SetValueAtTime (currentValue (gain (pool (partialPool mixedSynth) ! r))) 10,
                      LinearRampToValueAtTime 0.001 (10 + 0.1)]\<rparr>"
    using n(4) unfolding nt pv p(2,3) by auto
  have g2: "gain (pool (partialPool ?s') ! 2) =
     \<lparr>currentValue = 1 / 50,
      scheduled = [SetValueAtTime (1 / 50) 10, LinearRampToValueAtTime (1 / 1000) (101 / 10)]\<rparr>"
    using g[of 2] unfolding p q by simp
  have g1: "gain (pool (partialPool ?s') ! 1) =
     \<lparr>currentValue = 1 / 5,
      scheduled = [SetValueAtTime (1 / 5) 10, LinearRampToValueAtTime (1 / 1000) (101 / 10)]\<rparr>"
    using g[of 1] unfolding p q by simp
  have o0: "pool (partialPool ?s') ! 0 = soundingPartial 0 880 (1 / 1000)"
    using n(6)[rule_format, of 0] unfolding nt pv p by simp
  have o3: "pool (partialPool ?s') ! 3 = soundingPartial 3 330 (1 / 2)"
    using n(6)[rule_format, of 3] unfolding nt pv p by simp
  have a3: "map_of (activeNotes ?s') 3 = Some (exampleVoice [0] 9 True False)"
    using n(5)[rule_format, of 3] m(2) by simp
  have t1: "(1, 150, NoteOffCleanup 2) \<in> set (timers ?s')" using n(2) unfolding p .
  have t2: "map_of (pendingCleanups ?s') 2 = Some 1" using n(3) unfolding p .
  show ?thesis
    using d t r m sc t1 t2 g2 g1 o0 o3 a3 by (intro conjI)
qed

section \<open>Double arithmetic\<close>

lemmas fl_defs = fl64_def exponent_def roundTiesToEven_def pow2_def compute_bitlen

text \<open>
  The rounding on known values: the doubles nearest to 0.7, 0.3 and 0.1, the difference
  \<open>1 - 0.3\<close>, which is the double 0.7, and the sum \<open>0.1 + 0.2\<close>, which is not the double 0.3.
\<close>

lemma fl64_examples:
  "fl64 (7 / 10) = 6305039478318694 / 2 ^ 53"
  "fl64 (3 / 10) = 5404319552844595 / 2 ^ 54"
  "fl64 (1 / 10) = 7205759403792794 / 2 ^ 56"
  "fl64 (1 - fl64 (3 / 10)) = fl64 (7 / 10)"
  "fl64 (fl64 (1 / 10) + fl64 (2 / 10)) = 5404319552844596 / 2 ^ 54"
  "fl64 (3 / 4) = 3 / 4"
  "fl64 12 = 12"
  "fl64 (- (1 / 3)) = - (6004799503160661 / 2 ^ 54)"
  by (simp_all add: fl_defs Let_def)

lemma pow2_pos: "0 < pow2 e"
  by (simp add: pow2_def)

lemma roundTiesToEven_nonneg: "0 \<le> y \<Longrightarrow> 0 \<le> roundTiesToEven y"
  by (simp add: roundTiesToEven_def Let_def)

lemma roundTiesToEven_le:
  assumes "y \<le> of_int k"
  shows "roundTiesToEven y \<le> k"
proof -
  have f: "\<lfloor>y\<rfloor> \<le> k" using assms by (simp add: floor_le_iff)
  show ?thesis
  proof (cases "y = of_int \<lfloor>y\<rfloor>")
    case True
    then have "y - of_int \<lfloor>y\<rfloor> = 0" by simp
    then show ?thesis using f by (simp add: roundTiesToEven_def Let_def)
  next
    case False
    then have "of_int \<lfloor>y\<rfloor> < y" using of_int_floor_le[of y] by linarith
    then have "of_int \<lfloor>y\<rfloor> < (of_int k :: real)" using assms by simp
    then have "\<lfloor>y\<rfloor> + 1 \<le> k" by simp
    then show ?thesis using f by (simp add: roundTiesToEven_def Let_def)
  qed
qed

lemma fl64_nonneg: "0 \<le> x \<Longrightarrow> 0 \<le> fl64 x"
  by (simp add: fl64_def Let_def roundTiesToEven_nonneg pow2_pos less_imp_le sgn_if)

lemma fl64_nonpos:
  assumes "x \<le> 0"
  shows "fl64 x \<le> 0"
proof (cases "x = 0")
  case True
  then show ?thesis by (simp add: fl64_def)
next
  case False
  then have "x < 0" using assms by simp
  moreover have "0 \<le> of_int (roundTiesToEven (\<bar>x\<bar> / pow2 (exponent \<bar>x\<bar> - 52))) * pow2 (exponent \<bar>x\<bar> - 52)"
    using pow2_pos[of "exponent \<bar>x\<bar> - 52"] roundTiesToEven_nonneg[of "\<bar>x\<bar> / pow2 (exponent \<bar>x\<bar> - 52)"]
    by simp
  ultimately show ?thesis by (simp add: fl64_def Let_def mult.assoc)
qed

lemma exponent_le:
  assumes "0 < x" "x < 2 ^ 53"
  shows "exponent x \<le> 52"
proof (cases "1 \<le> x")
  case True
  have "\<lfloor>x\<rfloor> < 2 ^ 53" using assms(2) by (simp add: floor_less_iff)
  then have "bitlen \<lfloor>x\<rfloor> \<le> 53" by (simp add: bitlen_le_iff_power)
  then show ?thesis using True by (simp add: exponent_def)
next
  case False
  then have "1 \<le> 1 / x" using assms(1) by simp
  then have "0 < \<lfloor>1 / x\<rfloor>" by simp
  then have "0 < bitlen \<lfloor>1 / x\<rfloor>"
    using bitlen_nonneg[of "\<lfloor>1 / x\<rfloor> div 2"] by (subst compute_bitlen) simp
  then show ?thesis using False by (simp add: exponent_def Let_def)
qed

text \<open>Rounding does not cross an integer below \<open>2 ^ 53\<close>: such an integer is a double.\<close>

lemma fl64_le_int:
  assumes "0 < x" "x \<le> of_int m" "m < 2 ^ 53"
  shows "fl64 x \<le> of_int m"
proof -
  let ?e = "exponent x - 52"
  have "x < 2 ^ 53"
  proof -
    have "(of_int m :: real) < of_int (2 ^ 53)" using assms(3) by (simp only: of_int_less_iff)
    then show ?thesis using assms(2) by simp
  qed
  then have e: "?e \<le> 0" using exponent_le[of x] assms(1) by simp
  then have p: "pow2 ?e = 1 / 2 ^ nat (- ?e)" by (cases "?e = 0") (simp_all add: pow2_def)
  have "x / pow2 ?e = x * 2 ^ nat (- ?e)" by (simp only: p) simp
  also have "\<dots> \<le> of_int m * 2 ^ nat (- ?e)" using assms(2) by simp
  also have "\<dots> = of_int (m * 2 ^ nat (- ?e))" by simp
  finally have "roundTiesToEven (x / pow2 ?e) \<le> m * 2 ^ nat (- ?e)" by (rule roundTiesToEven_le)
  then have "(of_int (roundTiesToEven (x / pow2 ?e)) :: real) \<le> of_int (m * 2 ^ nat (- ?e))"
    by (simp only: of_int_le_iff)
  then have "of_int (roundTiesToEven (x / pow2 ?e)) * pow2 ?e \<le> of_int (m * 2 ^ nat (- ?e)) * pow2 ?e"
    using pow2_pos[of ?e] by (simp only: mult_le_cancel_right_pos)
  also have "of_int (m * 2 ^ nat (- ?e)) * pow2 ?e = of_int m" by (simp add: p)
  finally have "of_int (roundTiesToEven (x / pow2 ?e)) * pow2 ?e \<le> real_of_int m" .
  then show ?thesis using assms(1) by (simp add: fl64_def Let_def)
qed

lemma fl64_le:
  assumes "x \<le> of_int m" "0 \<le> m" "m < 2 ^ 53"
  shows "fl64 x \<le> of_int m"
proof (cases "0 < x")
  case True
  then show ?thesis using assms by (simp add: fl64_le_int)
next
  case False
  then have "fl64 x \<le> 0" by (simp add: fl64_nonpos)
  then show ?thesis using assms(2) by simp
qed


section \<open>Stealing inside noteOn\<close>

lemma exh_adaptive: "adaptiveMaxPartials exhaustedSynth = 6"
  by (simp add: adaptiveMaxPartials_def exhaustedSynth_def Math_round_def Let_def fl_defs)

lemma exh_select: "selectPartials exhaustedSynth exampleConfigs (Some 6) = exampleConfigs"
  by (simp add: selectPartials_def exampleConfigs_def slice0_def Let_def upt_rec)

lemma exh_noteOff:
  "noteOff exhaustedSynth (Suc 0) (1 / 20) False =
     exhaustedSynth
       \<lparr>partialPool :=
          \<lparr>pool = [soundingPartial 0 880 (1 / 10), soundingPartial 1 440 (1 / 5),
                   (soundingPartial 2 660 (1 / 50))
                     \<lparr>gain := \<lparr>currentValue = 1 / 50,
                               scheduled = [SetValueAtTime (1 / 50) 10, LinearRampToValueAtTime (1 / 1000) (101 / 10)]\<rparr>\<rparr>,
                   (soundingPartial 3 330 (1 / 25))
                     \<lparr>gain := \<lparr>currentValue = 1 / 25,
                               scheduled = [SetValueAtTime (1 / 25) 10, LinearRampToValueAtTime (1 / 1000) (101 / 10)]\<rparr>\<rparr>],
           available = []\<rparr>,
        timers := [(1, 150, NoteOffCleanup 1)], nextTimerId := 2, pendingCleanups := [(1, 1)]\<rparr>"
  by (simp add: noteOff_def exhaustedSynth_def exampleVoice_def soundingPartial_def Let_def
      cancelPendingCleanup_def setPartialGain_def releaseRamp_def setTimeout_def
      cancelScheduledValues_def setValueAtTime_def linearRampToValueAtTime_def)

text \<open>
  Claim C3, evaluated on the scenario of the claim: capacity 4, two pedal-sustained voices
  holding two partials each, a third \<open>noteOn\<close> asking for two partials.  Voice stealing
  selects voice 1 and gives it the forced \<open>noteOff\<close>, which only schedules the cleanup
  (150 ms timer); no partial has returned to the pool when \<open>acquire\<close> is retried, so the
  retry fails and the new voice is registered with no partial at all.
\<close>

theorem steal_retry_fails:
  "fst (stealVoiceFromQuietestSustainedNote exhaustedSynth) = Some 1 \<and>
   (\<exists>g s' v. noteOn exhaustedSynth 3 523 100 True False exampleConfigs = Inr (g, s') \<and>
       map_of (activeNotes s') 3 = Some v \<and> partials v = [] \<and>
       available (partialPool s') = [] \<and>
       map inUse (pool (partialPool s')) = [True, True, True, True] \<and>
       map fst (activeNotes s') = [1, 2, 3] \<and>
       timers s' = [(1, 150, NoteOffCleanup 1)])"
proof -
  have st: "stealVoiceFromQuietestSustainedNote exhaustedSynth = (Some 1, noteOff exhaustedSynth 1 0.05 False)"
    by (simp add: stealVoiceFromQuietestSustainedNote_def exhaustedSynth_def stealStep_def stealEligible_def
      stealScore_def exampleVoice_def soundingPartial_def Let_def)
  have av: "available (partialPool exhaustedSynth) = []" by (simp add: exhaustedSynth_def)
  have lp: "acquireLoop exhaustedSynth 100 10 exampleConfigs [] [] = Inr (noteOff exhaustedSynth 1 0.05 False, [], [])"
    by (simp add: acquireLoop_exhausted[OF av] st) (simp add: exampleConfigs_def)
  have ct: "currentTime exhaustedSynth = 10" by (simp add: exhaustedSynth_def)
  show ?thesis
    by (simp add: st noteOn_def Let_def exh_adaptive exh_select ct lp)
       (simp add: exh_noteOff, simp add: exhaustedSynth_def soundingPartial_def)
qed

section \<open>The evolution tick\<close>

lemma tickNote_pool:
  "partialPool (tickNote rate e s) =
     fold (\<lambda>(r, info). setPartialGain r
             (evolveGain (currentTime s)
                (initialAmp info * rate (snd e) (currentTime s - startTime (snd e)) (infoHarmonicNum info))))
       (zip (partials (snd e)) (initialAmplitudes (snd e))) (partialPool s)"
  by (simp add: tickNote_def Let_def setTimeout_def split: prod.splits)

lemma tickNote_time: "currentTime (tickNote rate e s) = currentTime s"
  by (simp add: tickNote_def Let_def setTimeout_def split: prod.splits)

lemma tickNote_active:
  "activeNotes (tickNote rate e s) =
     AList.update (fst e) ((snd e)\<lparr>lastUpdateTime := currentTime s\<rparr>) (activeNotes s)"
  by (simp add: tickNote_def Let_def setTimeout_def split: prod.splits)

lemma tickNote_pending_other:
  "k \<noteq> fst e \<Longrightarrow> map_of (pendingCleanups (tickNote rate e s)) k = map_of (pendingCleanups s) k"
  by (simp add: tickNote_def Let_def setTimeout_def update_conv' split: prod.splits)

lemma tickNote_pending_mono:
  "map_of (pendingCleanups s) k = Some tid \<Longrightarrow> map_of (pendingCleanups (tickNote rate e s)) k = Some tid"
  by (cases "k = fst e") (auto simp: tickNote_def Let_def setTimeout_def update_conv' split: prod.splits)

lemma tickNote_timers_mono: "x \<in> set (timers s) \<Longrightarrow> x \<in> set (timers (tickNote rate e s))"
  by (simp add: tickNote_def Let_def setTimeout_def split: prod.splits)

lemma tickNote_silent:
  assumes "partials (snd e) = []" "currentTime s - startTime (snd e) > 0.5"
  shows "\<exists>tid. map_of (pendingCleanups (tickNote rate e s)) (fst e) = Some tid \<and>
           (map_of (pendingCleanups s) (fst e) = None \<longrightarrow>
              (tid, 200, DecayCheck (fst e)) \<in> set (timers (tickNote rate e s)))"
  using assms
  by (cases "map_of (pendingCleanups s) (fst e)")
     (simp_all add: tickNote_def Let_def setTimeout_def update_conv' partialGains_def below_def)

lemma fold_tick_time: "currentTime (fold (tickNote rate) es s) = currentTime s"
  by (induction es arbitrary: s) (simp_all add: tickNote_time)

lemma fold_tick_pending_other:
  "k \<notin> fst ` set es \<Longrightarrow> map_of (pendingCleanups (fold (tickNote rate) es s)) k = map_of (pendingCleanups s) k"
  by (induction es arbitrary: s) (simp_all add: tickNote_pending_other)

lemma fold_tick_pending_mono:
  "map_of (pendingCleanups s) k = Some tid \<Longrightarrow>
   map_of (pendingCleanups (fold (tickNote rate) es s)) k = Some tid"
  by (induction es arbitrary: s) (simp_all add: tickNote_pending_mono)

lemma fold_tick_timers_mono:
  "x \<in> set (timers s) \<Longrightarrow> x \<in> set (timers (fold (tickNote rate) es s))"
  by (induction es arbitrary: s) (simp_all add: tickNote_timers_mono)

lemma fold_tick_active_other:
  "k \<notin> fst ` set es \<Longrightarrow> map_of (activeNotes (fold (tickNote rate) es s)) k = map_of (activeNotes s) k"
  by (induction es arbitrary: s) (simp_all add: tickNote_active update_conv')

lemma split_entry:
  assumes "distinct (map fst es)" "map_of es k = Some v"
  shows "\<exists>xs ys. es = xs @ (k, v) # ys \<and> k \<notin> fst ` set xs \<and> k \<notin> fst ` set ys"
proof -
  have "(k, v) \<in> set es" using assms(2) by (rule map_of_SomeD)
  then obtain xs ys where e: "es = xs @ (k, v) # ys" by (meson split_list)
  then show ?thesis using assms(1) by auto
qed

lemma tick_silent:
  assumes "distinct (map fst (activeNotes s))" "map_of (activeNotes s) k = Some v"
    "partials v = []" "currentTime s - startTime v > 0.5"
  shows "\<exists>tid. map_of (pendingCleanups (updateHarmonicEvolution rate s)) k = Some tid \<and>
           (map_of (pendingCleanups s) k = None \<longrightarrow>
              (tid, 200, DecayCheck k) \<in> set (timers (updateHarmonicEvolution rate s)))"
    and "map_of (activeNotes (updateHarmonicEvolution rate s)) k = Some (v\<lparr>lastUpdateTime := currentTime s\<rparr>)"
proof -
  obtain xs ys where sp: "activeNotes s = xs @ (k, v) # ys" "k \<notin> fst ` set xs" "k \<notin> fst ` set ys"
    using split_entry[OF assms(1,2)] by blast
  let ?s1 = "fold (tickNote rate) xs s"
  let ?s2 = "tickNote rate (k, v) ?s1"
  have u: "updateHarmonicEvolution rate s = fold (tickNote rate) ys ?s2"
    by (simp add: updateHarmonicEvolution_def sp(1))
  have t1: "currentTime ?s1 = currentTime s" by (rule fold_tick_time)
  have p1: "map_of (pendingCleanups ?s1) k = map_of (pendingCleanups s) k"
    by (rule fold_tick_pending_other[OF sp(2)])
  from tickNote_silent[of "(k, v)" ?s1 rate] assms(3,4) t1 p1
  obtain tid where tid: "map_of (pendingCleanups ?s2) k = Some tid"
    "map_of (pendingCleanups s) k = None \<longrightarrow> (tid, 200, DecayCheck k) \<in> set (timers ?s2)"
    by auto
  show "\<exists>tid. map_of (pendingCleanups (updateHarmonicEvolution rate s)) k = Some tid \<and>
           (map_of (pendingCleanups s) k = None \<longrightarrow>
              (tid, 200, DecayCheck k) \<in> set (timers (updateHarmonicEvolution rate s)))"
    unfolding u
  proof (intro exI[of _ tid] conjI impI)
    show "map_of (pendingCleanups (fold (tickNote rate) ys ?s2)) k = Some tid"
      by (rule fold_tick_pending_mono[OF tid(1)])
    assume "map_of (pendingCleanups s) k = None"
    then have "(tid, 200, DecayCheck k) \<in> set (timers ?s2)" using tid(2) by simp
    then show "(tid, 200, DecayCheck k) \<in> set (timers (fold (tickNote rate) ys ?s2))"
      by (rule fold_tick_timers_mono)
  qed
  have "map_of (activeNotes ?s2) k = Some (v\<lparr>lastUpdateTime := currentTime s\<rparr>)"
    by (simp add: tickNote_active update_conv' t1)
  then show "map_of (activeNotes (updateHarmonicEvolution rate s)) k = Some (v\<lparr>lastUpdateTime := currentTime s\<rparr>)"
    unfolding u by (simp add: fold_tick_active_other[OF sp(3)])
qed

lemma fire_decay_silent:
  assumes "map_of (activeNotes s) k = Some v" "partials v = []"
  shows "map_of (activeNotes (fireAction s (DecayCheck k))) k = None"
    "map_of (pendingCleanups (fireAction s (DecayCheck k))) k = None"
  using assms by (simp_all add: partialGains_def below_def cleanupNote_removes delete_conv' Let_def)

lemma length_update:
  "length (AList.update k v al) = (if k \<in> fst ` set al then length al else Suc (length al))"
  by (induction al) auto

text \<open>
  Claim C10.  Let the pool of \<open>s\<close> be exhausted and no voice of \<open>s\<close> be a steal
  candidate (every voice has its key down or holds no partial).  Then \<open>noteOn\<close> does not
  throw, returns the note's gain node (gain 1), leaves the pool as it was and registers
  under the given id a voice with an empty partial list; \<open>getActiveNoteCount\<close> counts it
  (the count grows by one unless the id was registered already).  Let \<open>t\<close> be any engine
  state in which a voice without partials is registered under the id and has run for more
  than 0.5 seconds.  Its silence check passes (the maximum over no gains is \<open>-Infinity\<close>),
  so after the evolution tick a cleanup is pending for the id: if none was pending before,
  the tick has put a 200 ms \<open>DecayCheck\<close> timer for it into the queue; and when that
  callback runs after the tick, the voice is removed.
\<close>

theorem silent_voice_lifecycle:
  assumes "available (partialPool s) = []"
    and "\<forall>e\<in>set (activeNotes s). keyDown (snd e) \<or> partials (snd e) = []"
    and "distinct (map fst (activeNotes t))"
    and "map_of (activeNotes t) noteId = Some v"
    and "partials v = []"
    and "currentTime t - startTime v > 0.5"
  shows "(\<exists>s' v'. noteOn s noteId fr vel kd pd configs = Inr (\<lparr>currentValue = 1, scheduled = []\<rparr>, s') \<and>
            map_of (activeNotes s') noteId = Some v' \<and> partials v' = [] \<and>
            startTime v' = currentTime s \<and>
            partialPool s' = partialPool s \<and>
            getActiveNoteCount s' =
              (if noteId \<in> fst ` set (activeNotes s) then getActiveNoteCount s
               else Suc (getActiveNoteCount s))) \<and>
         below (Math_max (partialGains t v)) 0.0005 \<and>
         (\<exists>tid. map_of (pendingCleanups (updateHarmonicEvolution rate t)) noteId = Some tid \<and>
            (map_of (pendingCleanups t) noteId = None \<longrightarrow>
               (tid, 200, DecayCheck noteId) \<in> set (timers (updateHarmonicEvolution rate t)))) \<and>
         map_of (activeNotes (fireAction (updateHarmonicEvolution rate t) (DecayCheck noteId))) noteId = None"
proof (intro conjI)
  have "\<forall>e\<in>set (activeNotes s). \<not> stealEligible (snd e)"
    using assms(2) by (auto simp: stealEligible_def)
  then have st: "stealVoiceFromQuietestSustainedNote s = (None, s)" by (rule steal_none)
  let ?v = "\<lparr>partials = [], gainNode = \<lparr>currentValue = 1, scheduled = []\<rparr>, frequency = fr,
             velocity = vel, startTime = currentTime s, keyDown = kd, pedalDown = pd,
             initialAmplitudes = [], lastUpdateTime = currentTime s\<rparr>"
  let ?s' = "s\<lparr>activeNotes := AList.update noteId ?v (activeNotes s)\<rparr>"
  have "noteOn s noteId fr vel kd pd configs = Inr (\<lparr>currentValue = 1, scheduled = []\<rparr>, ?s')"
    by (simp add: noteOn_def Let_def acquireLoop_exhausted[OF assms(1)] st)
  moreover have "map_of (activeNotes ?s') noteId = Some ?v" by (simp add: update_conv')
  moreover have "getActiveNoteCount ?s' =
              (if noteId \<in> fst ` set (activeNotes s) then getActiveNoteCount s
               else Suc (getActiveNoteCount s))"
    by (simp add: getActiveNoteCount_def length_update)
  ultimately show "\<exists>s' v'. noteOn s noteId fr vel kd pd configs = Inr (\<lparr>currentValue = 1, scheduled = []\<rparr>, s') \<and>
            map_of (activeNotes s') noteId = Some v' \<and> partials v' = [] \<and>
            startTime v' = currentTime s \<and>
            partialPool s' = partialPool s \<and>
            getActiveNoteCount s' =
              (if noteId \<in> fst ` set (activeNotes s) then getActiveNoteCount s
               else Suc (getActiveNoteCount s))"
    by (intro exI[of _ ?s'] exI[of _ ?v]) simp
next
  show "below (Math_max (partialGains t v)) 0.0005"
    using assms(5) by (simp add: partialGains_def below_def)
next
  show "\<exists>tid. map_of (pendingCleanups (updateHarmonicEvolution rate t)) noteId = Some tid \<and>
            (map_of (pendingCleanups t) noteId = None \<longrightarrow>
               (tid, 200, DecayCheck noteId) \<in> set (timers (updateHarmonicEvolution rate t)))"
    by (rule tick_silent(1)[OF assms(3,4,5,6)])
next
  have "map_of (activeNotes (updateHarmonicEvolution rate t)) noteId = Some (v\<lparr>lastUpdateTime := currentTime t\<rparr>)"
    by (rule tick_silent(2)[OF assms(3,4,5,6)])
  then show "map_of (activeNotes (fireAction (updateHarmonicEvolution rate t) (DecayCheck noteId))) noteId = None"
    by (rule fire_decay_silent(1)) (simp add: assms(5))
qed

theorem silent_voice_lifecycle_witness:
  "available (partialPool heldSynth) = [] \<and>
   list_all (\<lambda>e. keyDown (snd e) \<or> partials (snd e) = []) (activeNotes heldSynth) \<and>
   distinct (map fst (activeNotes silentSynth)) \<and>
   map_of (activeNotes silentSynth) 7 = Some (exampleVoice [] 10 True False) \<and>
   partials (exampleVoice [] 10 True False) = [] \<and>
   currentTime silentSynth - startTime (exampleVoice [] 10 True False) > 0.5 \<and>
   (\<exists>s' v'. noteOn heldSynth 7 440 100 True False exampleConfigs = Inr (\<lparr>currentValue = 1, scheduled = []\<rparr>, s') \<and>
       map_of (activeNotes s') 7 = Some v' \<and> partials v' = [] \<and> getActiveNoteCount s' = 2) \<and>
   (\<exists>tid. map_of (pendingCleanups (updateHarmonicEvolution (\<lambda>v e h. 1) silentSynth)) 7 = Some tid \<and>
       (tid, 200, DecayCheck 7) \<in> set (timers (updateHarmonicEvolution (\<lambda>v e h. 1) silentSynth))) \<and>
   map_of (activeNotes (fireAction (updateHarmonicEvolution (\<lambda>v e h. 1) silentSynth) (DecayCheck 7))) 7 = None"
proof -
  have h: "available (partialPool heldSynth) = []"
    "\<forall>e\<in>set (activeNotes heldSynth). keyDown (snd e) \<or> partials (snd e) = []"
    "distinct (map fst (activeNotes silentSynth))"
    "map_of (activeNotes silentSynth) 7 = Some (exampleVoice [] 10 True False)"
    "partials (exampleVoice [] 10 True False) = []"
    "currentTime silentSynth - startTime (exampleVoice [] 10 True False) > 0.5"
    by (simp_all add: heldSynth_def silentSynth_def exampleVoice_def)
  have n: "map_of (pendingCleanups silentSynth) 7 = None" "7 \<notin> fst ` set (activeNotes heldSynth)"
    "getActiveNoteCount heldSynth = 1"
    by (simp_all add: heldSynth_def silentSynth_def getActiveNoteCount_def)
  have "list_all (\<lambda>e. keyDown (snd e) \<or> partials (snd e) = []) (activeNotes heldSynth)"
    using h(2) by (simp only: list_all_iff)
  then show ?thesis
    using silent_voice_lifecycle[OF h, of 440 100 True False exampleConfigs "\<lambda>v e h. 1"] h n
    by auto
qed

section \<open>Hysteresis of the evolution tick\<close>



lemma fold_gain_length:
  "length (pool (fold (\<lambda>x. setPartialGain (fst x) (f x)) xs pp)) = length (pool pp)"
  by (induction xs arbitrary: pp) (simp_all add: setPartialGain_length)

lemma fold_gain_other:
  "r \<notin> fst ` set xs \<Longrightarrow> pool (fold (\<lambda>x. setPartialGain (fst x) (f x)) xs pp) ! r = pool pp ! r"
  by (induction xs arbitrary: pp) (simp_all add: setPartialGain_nth)

lemma fold_gain_at:
  assumes "distinct (map fst xs)" "i < length xs" "fst (xs ! i) < length (pool pp)"
  shows "gain (pool (fold (\<lambda>x. setPartialGain (fst x) (f x)) xs pp) ! fst (xs ! i))
           = f (xs ! i) (gain (pool pp ! fst (xs ! i)))"
  using assms
proof (induction xs arbitrary: pp i)
  case Nil
  then show ?case by simp
next
  case (Cons x xs)
  show ?case
  proof (cases i)
    case 0
    have "fst x \<notin> fst ` set xs" using Cons.prems(1) by simp
    then show ?thesis using 0 Cons.prems(3) by (simp add: fold_gain_other setPartialGain_nth)
  next
    case (Suc j)
    have "xs ! j \<in> set xs" using Cons.prems(2) Suc by simp
    then have "fst (xs ! j) \<in> fst ` set xs" by (rule imageI)
    moreover have "fst x \<notin> fst ` set xs" using Cons.prems(1) by simp
    ultimately have ne: "fst (xs ! j) \<noteq> fst x" by metis
    have "gain (pool (fold (\<lambda>x. setPartialGain (fst x) (f x)) xs (setPartialGain (fst x) (f x) pp)) ! fst (xs ! j))
           = f (xs ! j) (gain (pool (setPartialGain (fst x) (f x) pp) ! fst (xs ! j)))"
      using Cons.prems Suc by (intro Cons.IH) (simp_all add: setPartialGain_length)
    then show ?thesis using Suc ne by (simp add: setPartialGain_nth)
  qed
qed

lemma tickNote_pool_fst:
  "partialPool (tickNote rate e s) =
     fold (\<lambda>x. setPartialGain (fst x)
             (evolveGain (currentTime s)
                (initialAmp (snd x) * rate (snd e) (currentTime s - startTime (snd e)) (infoHarmonicNum (snd x)))))
       (zip (partials (snd e)) (initialAmplitudes (snd e))) (partialPool s)"
  by (simp add: tickNote_pool split_def)

lemma tickNote_pool_other:
  assumes "r \<notin> set (partials (snd e))"
  shows "pool (partialPool (tickNote rate e s)) ! r = pool (partialPool s) ! r"
proof -
  have "r \<notin> fst ` set (zip (partials (snd e)) (initialAmplitudes (snd e)))"
    using assms by (auto dest: set_zip_leftD)
  then show ?thesis unfolding tickNote_pool_fst by (rule fold_gain_other)
qed

lemma tickNote_pool_length: "length (pool (partialPool (tickNote rate e s))) = length (pool (partialPool s))"
  unfolding tickNote_pool_fst by (rule fold_gain_length)

lemma fold_tick_pool_other:
  "r \<notin> \<Union> (set ` partials ` snd ` set es) \<Longrightarrow>
   pool (partialPool (fold (tickNote rate) es s)) ! r = pool (partialPool s) ! r"
  by (induction es arbitrary: s) (simp_all add: tickNote_pool_other)

lemma fold_tick_pool_length:
  "length (pool (partialPool (fold (tickNote rate) es s))) = length (pool (partialPool s))"
  by (induction es arbitrary: s) (simp_all add: tickNote_pool_length)

lemma tickNote_pool_at:
  assumes "distinct (partials (snd e))" "i < length (partials (snd e))" "i < length (initialAmplitudes (snd e))"
    "partials (snd e) ! i < length (pool (partialPool s))"
  shows "gain (pool (partialPool (tickNote rate e s)) ! (partials (snd e) ! i)) =
           evolveGain (currentTime s)
             (initialAmp (initialAmplitudes (snd e) ! i)
                * rate (snd e) (currentTime s - startTime (snd e)) (infoHarmonicNum (initialAmplitudes (snd e) ! i)))
             (gain (pool (partialPool s) ! (partials (snd e) ! i)))"
proof -
  let ?xs = "zip (partials (snd e)) (initialAmplitudes (snd e))"
  have d: "distinct (map fst ?xs)" using assms(1) by (simp add: map_fst_zip_take)
  have l: "i < length ?xs" using assms(2,3) by simp
  have x: "?xs ! i = (partials (snd e) ! i, initialAmplitudes (snd e) ! i)" using assms(2,3) by simp
  have b: "fst (?xs ! i) < length (pool (partialPool s))" using assms(4) x by simp
  show ?thesis
    unfolding tickNote_pool_fst using fold_gain_at[OF d l b] by (simp add: x)
qed

lemma evolveGain_cases:
  "evolveGain now targetAmp g =
     (if \<bar>currentValue g - max 0.0001 targetAmp\<bar> / max (currentValue g) 0.0001 > 0.05
      then \<lparr>currentValue = currentValue g,
            scheduled = filter (\<lambda>e. eventTime e < now) (scheduled g)
                        @ [SetValueAtTime (max 0.0001 (currentValue g)) now,
                           ExponentialRampToValueAtTime (max 0.0001 targetAmp) (now + 0.2)]\<rparr>
      else g)"
  by (simp add: evolveGain_def Let_def exponentialRampToValueAtTime_def setValueAtTime_def
      cancelScheduledValues_def)

text \<open>
  Claim C9.  Take any engine state whose voices hold pairwise distinct partials, any voice
  of it and any of its partials that has an \<open>initialAmplitudes\<close> entry.  Let the target
  be the amplitude the tick computes for it (initial amplitude times the acoustic model's
  factor, clamped from below at 0.0001, which is the value a ramp would go to) and let the
  relative change be \<open>|current - target| / max(current, 0.0001)\<close>, as the tick computes
  it.  If the relative change is at most 0.05, the whole tick leaves the partial's gain
  parameter exactly as it was: no cancellation, no new event.  If it exceeds 0.05, the tick
  has cancelled the events scheduled at or after now, anchored \<open>max(0.0001, current)\<close> at
  now and scheduled one exponential ramp to the target at now + 0.2, and nothing else.
\<close>

theorem evolution_hysteresis:
  assumes "distinct (map fst (activeNotes s))"
    and "distinct (concat (map (\<lambda>e. partials (snd e)) (activeNotes s)))"
    and "map_of (activeNotes s) noteId = Some v"
    and "i < length (partials v)" and "i < length (initialAmplitudes v)"
    and "partials v ! i < length (pool (partialPool s))"
  shows "(\<bar>currentValue (gain (pool (partialPool s) ! (partials v ! i)))
             - max 0.0001 (initialAmp (initialAmplitudes v ! i)
                  * rate v (currentTime s - startTime v) (infoHarmonicNum (initialAmplitudes v ! i)))\<bar>
           / max (currentValue (gain (pool (partialPool s) ! (partials v ! i)))) 0.0001 \<le> 0.05
          \<longrightarrow> gain (pool (partialPool (updateHarmonicEvolution rate s)) ! (partials v ! i))
                = gain (pool (partialPool s) ! (partials v ! i))) \<and>
         (\<bar>currentValue (gain (pool (partialPool s) ! (partials v ! i)))
             - max 0.0001 (initialAmp (initialAmplitudes v ! i)
                  * rate v (currentTime s - startTime v) (infoHarmonicNum (initialAmplitudes v ! i)))\<bar>
           / max (currentValue (gain (pool (partialPool s) ! (partials v ! i)))) 0.0001 > 0.05
          \<longrightarrow> gain (pool (partialPool (updateHarmonicEvolution rate s)) ! (partials v ! i))
                = \<lparr>currentValue = currentValue (gain (pool (partialPool s) ! (partials v ! i))),
                   scheduled =
                     filter (\<lambda>e. eventTime e < currentTime s)
                       (scheduled (gain (pool (partialPool s) ! (partials v ! i))))
                     @ [SetValueAtTime (max 0.0001 (currentValue (gain (pool (partialPool s) ! (partials v ! i)))))
                          (currentTime s),
                        ExponentialRampToValueAtTime
                          (max 0.0001 (initialAmp (initialAmplitudes v ! i)
                             * rate v (currentTime s - startTime v) (infoHarmonicNum (initialAmplitudes v ! i))))
                          (currentTime s + 0.2)]\<rparr>)"
proof -
  let ?r = "partials v ! i"
  let ?g0 = "gain (pool (partialPool s) ! ?r)"
  let ?tgt = "initialAmp (initialAmplitudes v ! i)
                * rate v (currentTime s - startTime v) (infoHarmonicNum (initialAmplitudes v ! i))"
  obtain xs ys where sp: "activeNotes s = xs @ (noteId, v) # ys"
    using split_entry[OF assms(1,3)] by blast
  have dc: "distinct (concat (map (\<lambda>e. partials (snd e)) xs) @ partials v
                        @ concat (map (\<lambda>e. partials (snd e)) ys))"
    using assms(2) by (simp add: sp)
  have rin: "?r \<in> set (partials v)" using assms(4) by simp
  have dv: "distinct (partials v)" using dc by simp
  have nx: "?r \<notin> \<Union> (set ` partials ` snd ` set xs)" using dc rin by auto
  have ny: "?r \<notin> \<Union> (set ` partials ` snd ` set ys)" using dc rin by auto
  let ?s1 = "fold (tickNote rate) xs s"
  let ?s2 = "tickNote rate (noteId, v) ?s1"
  have u: "updateHarmonicEvolution rate s = fold (tickNote rate) ys ?s2"
    by (simp add: updateHarmonicEvolution_def sp)
  have t1: "currentTime ?s1 = currentTime s" by (rule fold_tick_time)
  have p1: "pool (partialPool ?s1) ! ?r = pool (partialPool s) ! ?r" by (rule fold_tick_pool_other[OF nx])
  have l1: "?r < length (pool (partialPool ?s1))" using assms(6) by (simp add: fold_tick_pool_length)
  have "gain (pool (partialPool ?s2) ! ?r) = evolveGain (currentTime s) ?tgt ?g0"
    using tickNote_pool_at[of "(noteId, v)" i ?s1 rate] dv assms(4,5) l1 by (simp add: t1 p1)
  moreover have "pool (partialPool (updateHarmonicEvolution rate s)) ! ?r = pool (partialPool ?s2) ! ?r"
    unfolding u by (rule fold_tick_pool_other[OF ny])
  ultimately have e: "gain (pool (partialPool (updateHarmonicEvolution rate s)) ! ?r)
                        = evolveGain (currentTime s) ?tgt ?g0"
    by simp
  show ?thesis
  proof (intro conjI impI)
    assume "\<bar>currentValue ?g0 - max 0.0001 ?tgt\<bar> / max (currentValue ?g0) 0.0001 \<le> 0.05"
    then have n: "\<not> \<bar>currentValue ?g0 - max 0.0001 ?tgt\<bar> / max (currentValue ?g0) 0.0001 > 0.05"
      by (simp only: not_less)
    have "evolveGain (currentTime s) ?tgt ?g0 = ?g0"
      by (subst evolveGain_cases) (rule if_not_P[OF n])
    then show "gain (pool (partialPool (updateHarmonicEvolution rate s)) ! ?r) = ?g0"
      by (simp only: e)
  next
    assume gt: "\<bar>currentValue ?g0 - max 0.0001 ?tgt\<bar> / max (currentValue ?g0) 0.0001 > 0.05"
    have "evolveGain (currentTime s) ?tgt ?g0 =
            \<lparr>currentValue = currentValue ?g0,
             scheduled = filter (\<lambda>e. eventTime e < currentTime s) (scheduled ?g0)
                         @ [SetValueAtTime (max 0.0001 (currentValue ?g0)) (currentTime s),
                            ExponentialRampToValueAtTime (max 0.0001 ?tgt) (currentTime s + 0.2)]\<rparr>"
      by (subst evolveGain_cases) (rule if_P[OF gt])
    then show "gain (pool (partialPool (updateHarmonicEvolution rate s)) ! ?r) =
            \<lparr>currentValue = currentValue ?g0,
             scheduled = filter (\<lambda>e. eventTime e < currentTime s) (scheduled ?g0)
                         @ [SetValueAtTime (max 0.0001 (currentValue ?g0)) (currentTime s),
                            ExponentialRampToValueAtTime (max 0.0001 ?tgt) (currentTime s + 0.2)]\<rparr>"
      by (simp only: e)
  qed
qed

theorem evolution_hysteresis_witness:
  "distinct (map fst (activeNotes mixedSynth)) \<and>
   distinct (concat (map (\<lambda>e. partials (snd e)) (activeNotes mixedSynth))) \<and>
   map_of (activeNotes mixedSynth) 2 = Some (exampleVoice [2, 1] 5 False True) \<and>
   (1::nat) < length (partials (exampleVoice [2, 1] 5 False True)) \<and>
   (1::nat) < length (initialAmplitudes (exampleVoice [2, 1] 5 False True)) \<and>
   partials (exampleVoice [2, 1] 5 False True) ! 1 < length (pool (partialPool mixedSynth)) \<and>
   \<bar>currentValue (gain (pool (partialPool mixedSynth) ! 1)) - max 0.0001 (1 / 2 * (2 / 5))\<bar>
      / max (currentValue (gain (pool (partialPool mixedSynth) ! 1))) 0.0001 \<le> 0.05 \<and>
   gain (pool (partialPool (updateHarmonicEvolution (\<lambda>v e h. 2 / 5) mixedSynth)) ! 1)
     = gain (pool (partialPool mixedSynth) ! 1) \<and>
   \<bar>currentValue (gain (pool (partialPool mixedSynth) ! 2)) - max 0.0001 (1 / 2 * (2 / 5))\<bar>
      / max (currentValue (gain (pool (partialPool mixedSynth) ! 2))) 0.0001 > 0.05 \<and>
   gain (pool (partialPool (updateHarmonicEvolution (\<lambda>v e h. 2 / 5) mixedSynth)) ! 2)
     = \<lparr>currentValue = 1 / 50,
        scheduled = [SetValueAtTime (1 / 50) 10, ExponentialRampToValueAtTime (1 / 5) (51 / 5)]\<rparr>"
proof -
  let ?v = "exampleVoice [2, 1] 5 False True"
  have h: "distinct (map fst (activeNotes mixedSynth))"
    "distinct (concat (map (\<lambda>e. partials (snd e)) (activeNotes mixedSynth)))"
    "map_of (activeNotes mixedSynth) 2 = Some ?v"
    by (simp_all add: mixedSynth_def exampleVoice_def)
  have i1: "(1::nat) < length (partials ?v)" "(1::nat) < length (initialAmplitudes ?v)"
    "partials ?v ! 1 < length (pool (partialPool mixedSynth))"
    and i0: "(0::nat) < length (partials ?v)" "(0::nat) < length (initialAmplitudes ?v)"
    "partials ?v ! 0 < length (pool (partialPool mixedSynth))"
    by (simp_all add: mixedSynth_def exampleVoice_def)
  have v: "partials ?v ! 1 = 1" "partials ?v ! 0 = 2"
    "initialAmp (initialAmplitudes ?v ! 1) = 1 / 2" "initialAmp (initialAmplitudes ?v ! 0) = 1 / 2"
    by (simp_all add: exampleVoice_def upt_rec)
  have g: "gain (pool (partialPool mixedSynth) ! 1) = \<lparr>currentValue = 1 / 5, scheduled = []\<rparr>"
    "gain (pool (partialPool mixedSynth) ! 2) = \<lparr>currentValue = 1 / 50, scheduled = []\<rparr>"
    "currentTime mixedSynth = 10"
    by (simp_all add: mixedSynth_def soundingPartial_def)
  have g': "gain (pool (partialPool mixedSynth) ! Suc 0) = \<lparr>currentValue = 1 / 5, scheduled = []\<rparr>"
    using g(1) by simp
  show ?thesis
    using evolution_hysteresis[OF h i1, of "\<lambda>v e h. 2 / 5", unfolded v g]
      evolution_hysteresis[OF h i0, of "\<lambda>v e h. 2 / 5", unfolded v g] h i1
    by (simp add: g g')
qed

section \<open>noteOff with immediate cleanup\<close>

text \<open>
  The immediate path of \<open>noteOff\<close>, for every registered voice and each of its partials
  \<open>r\<close> (the references being distinct): \<open>cleanupNote\<close> runs inside the call and removes
  the voice from the active table; the free list and the in-use flag of \<open>r\<close> are as before
  the call, the return of \<open>r\<close> to the pool being queued as a 15 ms \<open>PartialRelease\<close>
  timer; and the release ramp just issued on \<open>r\<close>'s gain is cancelled again, the gain
  carrying cleanup's 10 ms fade to 0.001 (or a set-to-0 when it is at or below 0.001).
\<close>

lemma noteOff_immediate_effect:
  assumes "map_of (activeNotes s) noteId = Some v"
    and "distinct (partials v)" and "r \<in> set (partials v)" and "r < length (pool (partialPool s))"
  shows "map_of (activeNotes (noteOff s noteId rt True)) noteId = None"
    and "available (partialPool (noteOff s noteId rt True)) = available (partialPool s)"
    and "inUse (pool (partialPool (noteOff s noteId rt True)) ! r) = inUse (pool (partialPool s) ! r)"
    and "\<exists>tid. (tid, 15, PartialRelease r) \<in> set (timers (noteOff s noteId rt True))"
    and "gain (pool (partialPool (noteOff s noteId rt True)) ! r) =
           \<lparr>currentValue = currentValue (gain (pool (partialPool s) ! r)),
            scheduled = filter (\<lambda>e. eventTime e < currentTime s) (scheduled (gain (pool (partialPool s) ! r)))
               @ (if currentValue (gain (pool (partialPool s) ! r)) > 0.001
                  then [SetValueAtTime (currentValue (gain (pool (partialPool s) ! r))) (currentTime s),
                        ExponentialRampToValueAtTime 0.001 (currentTime s + 0.01)]
                  else [SetValueAtTime 0 (currentTime s)])\<rparr>"
proof -
  let ?R = "releasedState s noteId v rt"
  let ?g = "gain (pool (partialPool s) ! r)"
  have pR: "pool (partialPool ?R) ! r = (pool (partialPool s) ! r)\<lparr>gain := releaseRamp (currentTime s) (max 0.1 rt) ?g\<rparr>"
    by (simp add: releasedState_fields fold_setGain_in[OF assms(2,3,4)])
  have lR: "r < length (pool (partialPool ?R))"
    using assms(4) by (simp add: releasedState_fields fold_setGain_length)
  obtain v' where v': "map_of (activeNotes ?R) noteId = Some v'" "partials v' = partials v"
    using releasedState_active[OF assms(1)] by blast
  show "map_of (activeNotes (noteOff s noteId rt True)) noteId = None"
    by (simp add: noteOff_immediate[OF assms(1)] cleanupNote_removes)
  have sa: "sameAlloc (partialPool s) (partialPool (noteOff s noteId rt True))" by (rule noteOff_basic)
  show "available (partialPool (noteOff s noteId rt True)) = available (partialPool s)"
    using sa by (simp add: sameAlloc_def)
  show "inUse (pool (partialPool (noteOff s noteId rt True)) ! r) = inUse (pool (partialPool s) ! r)"
    using sameAlloc_nth(1)[OF sa assms(4)] .
  show "\<exists>tid. (tid, 15, PartialRelease r) \<in> set (timers (noteOff s noteId rt True))"
    using cleanupNote_timers[OF v'(1)] assms(3) v'(2) by (simp add: noteOff_immediate[OF assms(1)])
  have "pool (partialPool (noteOff s noteId rt True)) ! r =
          (pool (partialPool ?R) ! r)\<lparr>gain := cleanupFade (currentTime s) (gain (pool (partialPool ?R) ! r))\<rparr>"
    using fold_setGain_in[of "partials v" r "partialPool ?R" "cleanupFade (currentTime s)"] assms(2,3) lR
    by (simp add: noteOff_immediate[OF assms(1)] cleanupNote_pool[OF v'(1)] v'(2) releasedState_fields(1))
  then have "gain (pool (partialPool (noteOff s noteId rt True)) ! r) =
          cleanupFade (currentTime s) (releaseRamp (currentTime s) (max 0.1 rt) ?g)"
    by (simp add: pR)
  also have "\<dots> = \<lparr>currentValue = currentValue ?g,
            scheduled = filter (\<lambda>e. eventTime e < currentTime s) (scheduled ?g)
               @ (if currentValue ?g > 0.001
                  then [SetValueAtTime (currentValue ?g) (currentTime s),
                        ExponentialRampToValueAtTime 0.001 (currentTime s + 0.01)]
                  else [SetValueAtTime 0 (currentTime s)])\<rparr>"
    by (rule fade_after_ramp) simp
  finally show "gain (pool (partialPool (noteOff s noteId rt True)) ! r) =
           \<lparr>currentValue = currentValue ?g,
            scheduled = filter (\<lambda>e. eventTime e < currentTime s) (scheduled ?g)
               @ (if currentValue ?g > 0.001
                  then [SetValueAtTime (currentValue ?g) (currentTime s),
                        ExponentialRampToValueAtTime 0.001 (currentTime s + 0.01)]
                  else [SetValueAtTime 0 (currentTime s)])\<rparr>" .
qed

text \<open>
  Claim C8, evaluated.  The engine of capacity 4 has all four partials in use; voice 1
  holds partials 3 and 2, partial 3 sounding at gain 0.04, at audio time 10.  The claim
  has \<open>noteOff(1, 0.5, true)\<close> put on each partial of the voice a release ramp to near-zero
  lasting 0.5 s, exponential, and reclaim the partials synchronously; the comments of
  \<open>noteOff\<close> and \<open>cleanupNote\<close> say the same (clean up right away, release partials back
  to pool).  The code removes the voice, but when the call returns the free list is still
  empty and all four partials are still flagged in-use; the release ramp is gone from
  partial 3, which carries cleanup's 10 ms fade instead; and the returns to the pool are
  queued as 15 ms timers, whose callbacks are what frees partials 3 and 2.  With
  \<open>immediateCleanup\<close> false the same call leaves the exponential ramp of 0.5 s on the
  partial and queues the cleanup 600 ms later.
\<close>

theorem noteOff_immediate_keeps_partials:
  "map_of (activeNotes exhaustedSynth) 1 = Some (exampleVoice [3, 2] 0 False True) \<and>
   map_of (activeNotes (noteOff exhaustedSynth 1 (1 / 2) True)) 1 = None \<and>
   available (partialPool (noteOff exhaustedSynth 1 (1 / 2) True)) = [] \<and>
   map inUse (pool (partialPool (noteOff exhaustedSynth 1 (1 / 2) True))) = [True, True, True, True] \<and>
   scheduled (gain (pool (partialPool (noteOff exhaustedSynth 1 (1 / 2) True)) ! 3))
     = [SetValueAtTime (1 / 25) 10, ExponentialRampToValueAtTime (1 / 1000) (1001 / 100)] \<and>
   timers (noteOff exhaustedSynth 1 (1 / 2) True)
     = [(1, 15, PartialRelease 3), (2, 15, PartialRelease 2), (3, 15, NoteGainDisconnect 1)] \<and>
   available (partialPool (fireAction (fireAction (noteOff exhaustedSynth 1 (1 / 2) True)
                                         (PartialRelease 3)) (PartialRelease 2))) = [3, 2] \<and>
   scheduled (gain (pool (partialPool (noteOff exhaustedSynth 1 (1 / 2) False)) ! 3))
     = [SetValueAtTime (1 / 25) 10, ExponentialRampToValueAtTime (1 / 1000) (21 / 2)] \<and>
   timers (noteOff exhaustedSynth 1 (1 / 2) False) = [(1, 600, NoteOffCleanup 1)]"
  by (simp add: noteOff_def cleanupNote_def exhaustedSynth_def exampleVoice_def soundingPartial_def Let_def
      cancelPendingCleanup_def setPartialGain_def releaseRamp_def setTimeout_def cleanupPartial_def
      cleanupFade_def cancelScheduledValues_def setValueAtTime_def linearRampToValueAtTime_def
      exponentialRampToValueAtTime_def release_def)

section \<open>noteOn\<close>

lemma map_insort_key: "map f (insort_key (\<lambda>x. g (f x)) x xs) = insort_key g (f x) (map f xs)"
  by (induction xs) simp_all

lemma map_sort_key: "map f (sort_key (\<lambda>x. g (f x)) xs) = sort_key g (map f xs)"
  by (induction xs) (simp_all add: map_insort_key)

lemma map_slice0: "map f (slice0 k xs) = slice0 k (map f xs)"
  by (simp add: slice0_def take_map)

lemma selectPartials_char:
  "selectPartials s configs (Some k) =
     slice0 (if k = 0 then maxPartials s else k) (sort_key (\<lambda>c. - amp c) (filter audible configs))"
proof -
  let ?P = "\<lambda>i. amp (configs ! i) > 0.001 \<and> freq (configs ! i) \<le> 24000"
  have "map (\<lambda>i. configs ! i) (sort_key (\<lambda>i. - amp (configs ! i)) (filter ?P [0..<length configs]))
          = sort_key (\<lambda>c. - amp c) (map (\<lambda>i. configs ! i) (filter ?P [0..<length configs]))"
    by (rule map_sort_key[of "\<lambda>i. configs ! i" "\<lambda>c. - amp c"])
  also have "map (\<lambda>i. configs ! i) (filter ?P [0..<length configs])
          = filter audible (map (\<lambda>i. configs ! i) [0..<length configs])"
    by (simp add: filter_map comp_def audible_def)
  also have "map (\<lambda>i. configs ! i) [0..<length configs] = configs" by (rule map_nth)
  finally show ?thesis by (simp add: selectPartials_def Let_def map_slice0)
qed

lemma adaptive_nonneg: "0 \<le> maxPartials s \<Longrightarrow> 0 \<le> adaptiveMaxPartials s"
  by (simp add: adaptiveMaxPartials_def Let_def le_max_iff_disj)

lemma adaptive_zero: "adaptiveMaxPartials s = 0 \<Longrightarrow> maxPartials s = 0"
  by (auto simp: adaptiveMaxPartials_def Let_def max_def split: if_splits)

lemma noteOn_selection:
  assumes "0 \<le> maxPartials s"
  shows "selectPartials s configs (Some (adaptiveMaxPartials s)) = loudestAudible (adaptiveMaxPartials s) configs"
proof -
  have "(if adaptiveMaxPartials s = 0 then maxPartials s else adaptiveMaxPartials s) = adaptiveMaxPartials s"
    using adaptive_zero[of s] by simp
  then show ?thesis
    using adaptive_nonneg[OF assms] by (simp add: selectPartials_char loudestAudible_def slice0_def)
qed

lemma loudestAudible_freq: "filter (\<lambda>c. \<not> freq c > 24000) (loudestAudible k configs) = loudestAudible k configs"
proof -
  have "\<forall>c\<in>set (loudestAudible k configs). audible c"
    by (auto simp: loudestAudible_def dest!: in_set_takeD)
  then show ?thesis by (auto simp: audible_def filter_id_conv)
qed

lemma noteOn_char:
  assumes "pool_wf (partialPool s)" "0 \<le> maxPartials s"
  shows "\<exists>s1. noteOn s noteId fr vel kd pd configs =
            Inr (\<lparr>currentValue = 1, scheduled = []\<rparr>,
                 s1\<lparr>activeNotes :=
                      AList.update noteId
                        \<lparr>partials = take (min (length (loudestAudible (adaptiveMaxPartials s) configs))
                                              (length (available (partialPool s))))
                                        (rev (available (partialPool s))),
                         gainNode = \<lparr>currentValue = 1, scheduled = []\<rparr>, frequency = fr,
                         velocity = vel, startTime = currentTime s, keyDown = kd, pedalDown = pd,
                         initialAmplitudes =
                           map (\<lambda>c. \<lparr>infoHarmonicNum = harmonicNum c, initialAmp = amp c\<rparr>)
                             (take (min (length (loudestAudible (adaptiveMaxPartials s) configs))
                                        (length (available (partialPool s))))
                                (loudestAudible (adaptiveMaxPartials s) configs)),
                         lastUpdateTime = currentTime s\<rparr>
                        (activeNotes s1)\<rparr>) \<and>
            pool_wf (partialPool s1) \<and>
            length (pool (partialPool s1)) = length (pool (partialPool s)) \<and>
            available (partialPool s1) =
              take (length (available (partialPool s))
                      - min (length (loudestAudible (adaptiveMaxPartials s) configs)) (length (available (partialPool s))))
                (available (partialPool s)) \<and>
            (\<forall>i<length (pool (partialPool s)). inUse (pool (partialPool s) ! i) \<longrightarrow> inUse (pool (partialPool s1) ! i)) \<and>
            (\<forall>j<min (length (loudestAudible (adaptiveMaxPartials s) configs)) (length (available (partialPool s))).
                 oscFrequency (pool (partialPool s1) ! (rev (available (partialPool s)) ! j))
                   = freq (loudestAudible (adaptiveMaxPartials s) configs ! j))"
proof -
  let ?sel = "loudestAudible (adaptiveMaxPartials s) configs"
  from acquireLoop_char[OF assms(1), of vel "currentTime s" ?sel "[]" "[]"]
  obtain s1 where a:
    "acquireLoop s vel (currentTime s) ?sel [] [] =
       Inr (s1, take (min (length ?sel) (length (available (partialPool s)))) (rev (available (partialPool s))),
            map (\<lambda>c. \<lparr>infoHarmonicNum = harmonicNum c, initialAmp = amp c\<rparr>)
              (take (min (length ?sel) (length (available (partialPool s)))) ?sel))"
    "pool_wf (partialPool s1)"
    "length (pool (partialPool s1)) = length (pool (partialPool s))"
    "available (partialPool s1) =
       take (length (available (partialPool s)) - min (length ?sel) (length (available (partialPool s))))
         (available (partialPool s))"
    "\<forall>i<length (pool (partialPool s)). inUse (pool (partialPool s) ! i) \<longrightarrow> inUse (pool (partialPool s1) ! i)"
    "\<forall>j<min (length ?sel) (length (available (partialPool s))).
        oscFrequency (pool (partialPool s1) ! (rev (available (partialPool s)) ! j)) = freq (?sel ! j)"
    unfolding loudestAudible_freq by auto
  show ?thesis
    by (rule exI[of _ s1]) (simp add: noteOn_def Let_def noteOn_selection[OF assms(2)] a)
qed

lemmas eval_defs = noteOn_def Let_def AdditiveSynth_new_def PartialPool_new_def newPartial_def
      adaptiveMaxPartials_def selectPartials_def slice0_def exampleConfigs_def upt_rec Math_round_def
      acquireOrSteal_def acquire_def configurePartial_def applyEnvelope_def
      cancelScheduledValues_def setValueAtTime_def exponentialRampToValueAtTime_def setValue_def
      fl_defs

lemma retrigger1_eq:
  "retrigger1 =
     \<lparr>currentTime = 10,
     partialPool =
     \<lparr>pool =
     [\<lparr>oscFrequency = 440,
     gain = \<lparr>currentValue = 0, scheduled = []\<rparr>,
     connected = False, inUse = False, index = 0\<rparr>,
     \<lparr>oscFrequency = 440,
     gain = \<lparr>currentValue = 0, scheduled = []\<rparr>,
     connected = False, inUse = False, index = 1\<rparr>,
     \<lparr>oscFrequency = 880,
     gain =
     \<lparr>currentValue = 0,
     scheduled =
     [SetValueAtTime (1 / 1000) 10,
     ExponentialRampToValueAtTime 1 (1001 / 100),
     ExponentialRampToValueAtTime (1 / 2) (1021 / 100),
     SetValueAtTime (1 / 2) (1021 / 100)]\<rparr>,
     connected = True, inUse = True, index = 2\<rparr>,
     \<lparr>oscFrequency = 440,
     gain =
     \<lparr>currentValue = 0,
     scheduled =
     [SetValueAtTime (1 / 1000) 10,
     ExponentialRampToValueAtTime 1 (1001 / 100),
     ExponentialRampToValueAtTime (1 / 2) (1031 / 100),
     SetValueAtTime (1 / 2) (1031 / 100)]\<rparr>,
     connected = True, inUse = True, index = 3\<rparr>],
     available = [0, 1]\<rparr>,
     activeNotes =
     [(1, \<lparr>partials = [3, 2],
     gainNode = \<lparr>currentValue = 1, scheduled = []\<rparr>,
     frequency = 440, velocity = 127, startTime = 10,
     keyDown = True, pedalDown = False,
     initialAmplitudes =
     [\<lparr>infoHarmonicNum = 1, initialAmp = 1 / 2\<rparr>,
     \<lparr>infoHarmonicNum = 2, initialAmp = 1 / 4\<rparr>],
     lastUpdateTime = 10\<rparr>)],
     pendingCleanups = [], maxPartials = 12, timers = [],
     nextTimerId = 1\<rparr>"
  by (simp add: retrigger1_def eval_defs)

lemma retrigger2_eq:
  "retrigger2 =
     \<lparr>currentTime = 10,
     partialPool =
     \<lparr>pool =
     [\<lparr>oscFrequency = 880,
     gain =
     \<lparr>currentValue = 0,
     scheduled =
     [SetValueAtTime (1 / 1000) 10,
     ExponentialRampToValueAtTime 1 (1001 / 100),
     ExponentialRampToValueAtTime (1 / 2) (1021 / 100),
     SetValueAtTime (1 / 2) (1021 / 100)]\<rparr>,
     connected = True, inUse = True, index = 0\<rparr>,
     \<lparr>oscFrequency = 440,
     gain =
     \<lparr>currentValue = 0,
     scheduled =
     [SetValueAtTime (1 / 1000) 10,
     ExponentialRampToValueAtTime 1 (1001 / 100),
     ExponentialRampToValueAtTime (1 / 2) (1031 / 100),
     SetValueAtTime (1 / 2) (1031 / 100)]\<rparr>,
     connected = True, inUse = True, index = 1\<rparr>,
     \<lparr>oscFrequency = 880,
     gain =
     \<lparr>currentValue = 0,
     scheduled =
     [SetValueAtTime (1 / 1000) 10,
     ExponentialRampToValueAtTime 1 (1001 / 100),
     ExponentialRampToValueAtTime (1 / 2) (1021 / 100),
     SetValueAtTime (1 / 2) (1021 / 100)]\<rparr>,
     connected = True, inUse = True, index = 2\<rparr>,
     \<lparr>oscFrequency = 440,
     gain =
     \<lparr>currentValue = 0,
     scheduled =
     [SetValueAtTime (1 / 1000) 10,
     ExponentialRampToValueAtTime 1 (1001 / 100),
     ExponentialRampToValueAtTime (1 / 2) (1031 / 100),
     SetValueAtTime (1 / 2) (1031 / 100)]\<rparr>,
     connected = True, inUse = True, index = 3\<rparr>],
     available = []\<rparr>,
     activeNotes =
     [(1, \<lparr>partials = [1, 0],
     gainNode = \<lparr>currentValue = 1, scheduled = []\<rparr>,
     frequency = 440, velocity = 127, startTime = 10,
     keyDown = True, pedalDown = False,
     initialAmplitudes =
     [\<lparr>infoHarmonicNum = 1, initialAmp = 1 / 2\<rparr>,
     \<lparr>infoHarmonicNum = 2, initialAmp = 1 / 4\<rparr>],
     lastUpdateTime = 10\<rparr>)],
     pendingCleanups = [], maxPartials = 12, timers = [], nextTimerId = 1\<rparr>"
  by (simp add: retrigger2_def retrigger1_eq) (simp add: eval_defs)

section \<open>Retriggering an active id\<close>

lemma acquired_fresh:
  assumes "pool_wf pp" "pool_wf pp1" "length (pool pp1) = length (pool pp)"
    "available pp1 = take (length (available pp) - k) (available pp)"
    "r \<in> set (take k (rev (available pp)))"
  shows "r < length (pool pp)" "\<not> inUse (pool pp ! r)" "inUse (pool pp1 ! r)"
proof -
  let ?av = "available pp"
  have tk: "take k (rev ?av) = rev (drop (length ?av - k) ?av)" by (rule take_rev)
  have rin: "r \<in> set (drop (length ?av - k) ?av)" using assms(5) by (simp add: tk)
  then have rav: "r \<in> set ?av" by (rule in_set_dropD)
  show l: "r < length (pool pp)" using assms(1) rav by (simp add: pool_wf_iff)
  show "\<not> inUse (pool pp ! r)" using assms(1) rav l by (simp add: pool_wf_iff)
  have "distinct ?av" using assms(1) by (simp add: pool_wf_iff)
  then have "set (take (length ?av - k) ?av) \<inter> set (drop (length ?av - k) ?av) = {}"
    by (rule set_take_disj_set_drop_if_distinct) simp
  then have "r \<notin> set (take (length ?av - k) ?av)" using rin by blast
  then have "r \<notin> set (available pp1)" by (simp add: assms(4))
  then show "inUse (pool pp1 ! r)" using assms(2,3) l by (simp add: pool_wf_iff)
qed

text \<open>
  Claim C2, as the code has it.  Let the pool satisfy its invariant and let the id be
  registered already, with a voice \<open>v0\<close> whose partials are in use.  A further
  \<open>noteOn\<close> for that id does not throw and overwrites the entry: afterwards the id maps
  to the new voice \<open>v\<close> alone, and the partials of \<open>v\<close> are partials this call acquired
  (each was free before the call and is in use after it).  \<open>noteOn\<close> releases nothing:
  every partial of the prior instance \<open>v0\<close> is still flagged in-use, none of them belongs
  to \<open>v\<close>, and the pool's in-use count has grown by the partial count of \<open>v\<close>.
\<close>

theorem retrigger_keeps_prior_partials:
  assumes "pool_wf (partialPool s)" and "0 \<le> maxPartials s"
    and "map_of (activeNotes s) noteId = Some v0"
    and "list_all (\<lambda>r. r < length (pool (partialPool s)) \<and> inUse (pool (partialPool s) ! r)) (partials v0)"
  shows "\<exists>g s' v. noteOn s noteId fr vel kd pd configs = Inr (g, s') \<and>
            map_of (activeNotes s') noteId = Some v \<and>
            (\<forall>r\<in>set (partials v). \<not> inUse (pool (partialPool s) ! r) \<and> inUse (pool (partialPool s') ! r)) \<and>
            (\<forall>r\<in>set (partials v0). inUse (pool (partialPool s') ! r) \<and> r \<notin> set (partials v)) \<and>
            inUseCount (partialPool s') = inUseCount (partialPool s) + length (partials v)"
proof -
  let ?sel = "loudestAudible (adaptiveMaxPartials s) configs"
  let ?av = "available (partialPool s)"
  let ?k = "min (length ?sel) (length ?av)"
  let ?v = "\<lparr>partials = take ?k (rev ?av),
             gainNode = \<lparr>currentValue = 1, scheduled = []\<rparr>, frequency = fr,
             velocity = vel, startTime = currentTime s, keyDown = kd, pedalDown = pd,
             initialAmplitudes = map (\<lambda>c. \<lparr>infoHarmonicNum = harmonicNum c, initialAmp = amp c\<rparr>) (take ?k ?sel),
             lastUpdateTime = currentTime s\<rparr>"
  from noteOn_char[OF assms(1,2), of noteId fr vel kd pd configs] obtain s1 where
    n: "noteOn s noteId fr vel kd pd configs =
          Inr (\<lparr>currentValue = 1, scheduled = []\<rparr>, s1\<lparr>activeNotes := AList.update noteId ?v (activeNotes s1)\<rparr>)"
    and w1: "pool_wf (partialPool s1)"
    and l1: "length (pool (partialPool s1)) = length (pool (partialPool s))"
    and a1: "available (partialPool s1) = take (length ?av - ?k) ?av"
    and m1: "\<forall>i<length (pool (partialPool s)). inUse (pool (partialPool s) ! i) \<longrightarrow> inUse (pool (partialPool s1) ! i)"
    by blast
  let ?s' = "s1\<lparr>activeNotes := AList.update noteId ?v (activeNotes s1)\<rparr>"
  have fresh: "\<forall>r\<in>set (partials ?v). \<not> inUse (pool (partialPool s) ! r) \<and> inUse (pool (partialPool ?s') ! r)"
    using acquired_fresh(2,3)[OF assms(1) w1 l1 a1] by simp
  have prior: "\<forall>r\<in>set (partials v0). inUse (pool (partialPool ?s') ! r) \<and> r \<notin> set (partials ?v)"
  proof
    fix r assume "r \<in> set (partials v0)"
    then have r: "r < length (pool (partialPool s))" "inUse (pool (partialPool s) ! r)"
      using assms(4) by (auto simp: list_all_iff)
    then have "inUse (pool (partialPool s1) ! r)" using m1 by blast
    moreover have "r \<notin> set (partials ?v)" using fresh r(2) by blast
    ultimately show "inUse (pool (partialPool ?s') ! r) \<and> r \<notin> set (partials ?v)" by simp
  qed
  have "length (available (partialPool s1)) + inUseCount (partialPool s1) = length (pool (partialPool s1))"
    using w1 by (rule wf_count)
  moreover have "length ?av + inUseCount (partialPool s) = length (pool (partialPool s))"
    using assms(1) by (rule wf_count)
  ultimately have cnt: "inUseCount (partialPool ?s') = inUseCount (partialPool s) + length (partials ?v)"
    using l1 a1 by simp
  have "map_of (activeNotes ?s') noteId = Some ?v" by (simp add: update_conv')
  then show ?thesis using n fresh prior cnt by blast
qed

lemma retrigger1_wf: "pool_wf (partialPool retrigger1)"
  by (simp add: retrigger1_eq pool_wf_def)

theorem retrigger_keeps_prior_partials_witness:
  "pool_wf (partialPool retrigger1) \<and> 0 \<le> maxPartials retrigger1 \<and>
   map_option partials (map_of (activeNotes retrigger1) 1) = Some [3, 2] \<and>
   list_all (\<lambda>r. r < length (pool (partialPool retrigger1)) \<and> inUse (pool (partialPool retrigger1) ! r)) [3, 2] \<and>
   (\<exists>g s' v. noteOn retrigger1 1 440 127 True False exampleConfigs = Inr (g, s') \<and>
        map_of (activeNotes s') 1 = Some v \<and>
        inUse (pool (partialPool s') ! 3) \<and> 3 \<notin> set (partials v) \<and>
        inUse (pool (partialPool s') ! 2) \<and> 2 \<notin> set (partials v) \<and>
        inUseCount (partialPool s') = 2 + length (partials v))"
proof -
  obtain v0 where v0: "map_of (activeNotes retrigger1) 1 = Some v0" "partials v0 = [3, 2]"
    by (simp add: retrigger1_eq)
  have h: "pool_wf (partialPool retrigger1)" "0 \<le> maxPartials retrigger1"
    "list_all (\<lambda>r. r < length (pool (partialPool retrigger1)) \<and> inUse (pool (partialPool retrigger1) ! r)) (partials v0)"
    by (simp_all add: retrigger1_wf v0(2)) (simp_all add: retrigger1_eq)
  have c: "inUseCount (partialPool retrigger1) = 2" by (simp add: retrigger1_eq inUseCount_def)
  from retrigger_keeps_prior_partials[OF h(1,2) v0(1) h(3), of 440 127 True False exampleConfigs]
  obtain g s' v where r: "noteOn retrigger1 1 440 127 True False exampleConfigs = Inr (g, s')"
    "map_of (activeNotes s') 1 = Some v"
    "\<forall>r\<in>set (partials v0). inUse (pool (partialPool s') ! r) \<and> r \<notin> set (partials v)"
    "inUseCount (partialPool s') = inUseCount (partialPool retrigger1) + length (partials v)"
    by blast
  have "inUse (pool (partialPool s') ! 3) \<and> 3 \<notin> set (partials v)"
       "inUse (pool (partialPool s') ! 2) \<and> 2 \<notin> set (partials v)"
    using r(3) by (simp_all add: v0(2))
  then show ?thesis using r(1,2,4) h v0 c by auto
qed

text \<open>
  Claim C2 as stated fails.  On a fresh engine of capacity 4, \<open>noteOn\<close> for id 1 with two
  audible configurations acquires partials 3 and 2; a second \<open>noteOn\<close> for id 1 acquires
  partials 1 and 0 and overwrites the entry.  Afterwards the only voice holds two partials,
  yet all four partials are in use, the free list is empty and no timer is pending that
  would ever return partials 3 and 2.
\<close>

theorem retrigger_leaks:
  "noteOn (AdditiveSynth_new 4 10) 1 440 127 True False exampleConfigs
     = Inr (\<lparr>currentValue = 1, scheduled = []\<rparr>, retrigger1) \<and>
   noteOn retrigger1 1 440 127 True False exampleConfigs
     = Inr (\<lparr>currentValue = 1, scheduled = []\<rparr>, retrigger2) \<and>
   map_option partials (map_of (activeNotes retrigger1) 1) = Some [3, 2] \<and>
   map_option partials (map_of (activeNotes retrigger2) 1) = Some [1, 0] \<and>
   map fst (activeNotes retrigger2) = [1] \<and>
   getActivePartialCount retrigger2 = 2 \<and>
   inUseCount (partialPool retrigger2) = 4 \<and>
   map inUse (pool (partialPool retrigger2)) = [True, True, True, True] \<and>
   available (partialPool retrigger2) = [] \<and>
   timers retrigger2 = []"
proof -
  have a: "noteOn (AdditiveSynth_new 4 10) 1 440 127 True False exampleConfigs
     = Inr (\<lparr>currentValue = 1, scheduled = []\<rparr>, retrigger1)"
    by (simp only: retrigger1_eq) (simp add: eval_defs)
  have b: "noteOn retrigger1 1 440 127 True False exampleConfigs
     = Inr (\<lparr>currentValue = 1, scheduled = []\<rparr>, retrigger2)"
    by (simp only: retrigger1_eq retrigger2_eq) (simp add: eval_defs)
  show ?thesis
    by (simp only: a b) (simp add: retrigger1_eq retrigger2_eq getActivePartialCount_def inUseCount_def)
qed

section \<open>What noteOn activates\<close>

lemma adaptive_usage:
  assumes "pool (partialPool s) \<noteq> []"
  shows "poolUsageRatio s \<le> fl64 0.7 \<Longrightarrow> adaptiveMaxPartials s = maxPartials s"
    and "poolUsageRatio s > fl64 0.7 \<Longrightarrow>
           adaptiveMaxPartials s =
             max 6 (Math_round
                      (fl64 (real_of_int (maxPartials s) *
                             fl64 (1 - fl64 (fl64 (poolUsageRatio s - fl64 0.7) / fl64 0.3)))))"
  using assms by (simp_all add: adaptiveMaxPartials_def poolUsageRatio_def Let_def)

lemma adaptive_lower: "6 \<le> maxPartials s \<Longrightarrow> 6 \<le> adaptiveMaxPartials s"
  by (simp add: adaptiveMaxPartials_def Let_def)

lemma adaptive_upper:
  assumes "6 \<le> maxPartials s" "maxPartials s < 2 ^ 53"
  shows "adaptiveMaxPartials s \<le> maxPartials s"
proof -
  have "max 6 (Math_round (fl64 (real_of_int (maxPartials s) * fl64 (1 - fl64 (fl64 (u - fl64 0.7) / fl64 0.3)))))
          \<le> maxPartials s"
    if u: "u > fl64 0.7" for u
  proof -
    let ?M = "real_of_int (maxPartials s)"
    let ?q = "fl64 (fl64 (u - fl64 0.7) / fl64 0.3)"
    have "0 \<le> fl64 (u - fl64 0.7)" using u by (simp add: fl64_nonneg)
    moreover have "0 \<le> fl64 0.3" by (simp add: fl64_nonneg)
    ultimately have "0 \<le> ?q" by (simp add: fl64_nonneg)
    then have "1 - ?q \<le> of_int 1" by simp
    then have "fl64 (1 - ?q) \<le> of_int 1" by (rule fl64_le) simp_all
    then have "?M * fl64 (1 - ?q) \<le> ?M * 1" using assms(1) by (intro mult_left_mono) simp_all
    then have "?M * fl64 (1 - ?q) \<le> of_int (maxPartials s)" by simp
    then have "fl64 (?M * fl64 (1 - ?q)) \<le> ?M" using assms by (intro fl64_le) simp_all
    then have "Math_round (fl64 (?M * fl64 (1 - ?q))) \<le> maxPartials s"
      unfolding Math_round_def by (simp add: floor_le_iff)
    then show ?thesis using assms(1) by simp
  qed
  then show ?thesis by (simp add: adaptiveMaxPartials_def Let_def)
qed

text \<open>
  The rounding of the doubles decides the limit: with 24 of 128 partials free and a limit of
  12 the product is the double just below 7.5, and \<open>Math.round\<close> gives 7.
\<close>

lemma adaptive_24_of_128:
  assumes "length (available (partialPool s)) = 24" "length (pool (partialPool s)) = 128"
    and "maxPartials s = 12"
  shows "adaptiveMaxPartials s = 7"
  using assms by (simp add: adaptiveMaxPartials_def Math_round_def Let_def fl_defs)

text \<open>
  While the selection fits into the free partials, or no voice can be stolen from, the
  acquisition loop steals nothing: the timers, the pending cleanups, the registered voices
  and every partial that was not free stay as they are.
\<close>

lemma acquire_other:
  assumes "pool_wf pp" "acquire pp = Inr (r, pp')" "i \<notin> set (available pp)"
  shows "pool pp' ! i = pool pp ! i"
proof (cases "available pp = []")
  case True
  then show ?thesis using assms by (simp add: acquire_empty)
next
  case False
  then have "last (available pp) \<in> set (available pp)" by simp
  then have "i \<noteq> last (available pp)" using assms(3) by auto
  then show ?thesis using assms(2) acquire_nonempty[OF assms(1) False] by auto
qed

lemma configurePartial_other:
  "i \<noteq> r \<Longrightarrow> pool (partialPool (configurePartial s vel c now r)) ! i = pool (partialPool s) ! i"
  by (simp add: configurePartial_def Let_def)

lemma configurePartial_quiet:
  "timers (configurePartial s vel c now r) = timers s"
  "pendingCleanups (configurePartial s vel c now r) = pendingCleanups s"
  "nextTimerId (configurePartial s vel c now r) = nextTimerId s"
  by (simp_all add: configurePartial_def Let_def)

lemma acquireLoop_quiet:
  assumes "pool_wf (partialPool s)"
    and "length (filter (\<lambda>c. \<not> freq c > 24000) cfgs) \<le> length (available (partialPool s))
         \<or> (\<forall>e\<in>set (activeNotes s). \<not> stealEligible (snd e))"
  shows "\<exists>s1 ps' ias'. acquireLoop s vel now cfgs ps ias = Inr (s1, ps', ias') \<and>
            timers s1 = timers s \<and> pendingCleanups s1 = pendingCleanups s \<and>
            activeNotes s1 = activeNotes s \<and>
            (\<forall>i. i \<notin> set (available (partialPool s)) \<longrightarrow>
                 pool (partialPool s1) ! i = pool (partialPool s) ! i)"
  using assms
proof (induction cfgs arbitrary: s ps ias)
  case Nil
  then show ?case by simp
next
  case (Cons c rest)
  show ?case
  proof (cases "freq c > 24000")
    case True
    then show ?thesis using Cons.IH[OF Cons.prems(1), of ps ias] Cons.prems(2) by simp
  next
    case False
    note fr = False
    show ?thesis
    proof (cases "available (partialPool s) = []")
      case True
      then have "\<forall>e\<in>set (activeNotes s). \<not> stealEligible (snd e)"
        using Cons.prems(2) fr by simp
      then have "stealVoiceFromQuietestSustainedNote s = (None, s)" by (rule steal_none)
      then have "acquireLoop s vel now (c # rest) ps ias = Inr (s, ps, ias)"
        using fr by (simp add: acquireOrSteal_exhausted[OF True])
      then show ?thesis by simp
    next
      case False
      note ne = False
      let ?av = "available (partialPool s)"
      let ?r = "last ?av"
      obtain pp where a: "acquire (partialPool s) = Inr (Some ?r, pp)"
        and b: "acquireOrSteal s = Inr (Some ?r, s\<lparr>partialPool := pp\<rparr>)"
        using acquireOrSteal_free[OF Cons.prems(1) ne] by blast
      let ?s2 = "configurePartial (s\<lparr>partialPool := pp\<rparr>) vel c now ?r"
      have sa: "sameAlloc pp (partialPool ?s2)"
        using configurePartial_basic(4)[of "s\<lparr>partialPool := pp\<rparr>"] by simp
      note w = acquire_wf[OF Cons.prems(1) a]
      have wf2: "pool_wf (partialPool ?s2)" using sameAlloc_wf[OF sa w(1)] .
      have av2: "available (partialPool ?s2) = butlast ?av"
        using sa acquire_available[OF Cons.prems(1) a] by (simp add: sameAlloc_def)
      have an2: "activeNotes ?s2 = activeNotes s" by (simp add: configurePartial_basic)
      have h2: "length (filter (\<lambda>c. \<not> freq c > 24000) rest) \<le> length (available (partialPool ?s2))
         \<or> (\<forall>e\<in>set (activeNotes ?s2). \<not> stealEligible (snd e))"
        using Cons.prems(2) fr ne by (simp add: av2 an2) linarith
      from Cons.IH[OF wf2 h2, of "ps @ [?r]" "ias @ [\<lparr>infoHarmonicNum = harmonicNum c, initialAmp = amp c\<rparr>]"]
      obtain s1 ps' ias' where
        ih: "acquireLoop ?s2 vel now rest (ps @ [?r]) (ias @ [\<lparr>infoHarmonicNum = harmonicNum c, initialAmp = amp c\<rparr>])
               = Inr (s1, ps', ias')"
          "timers s1 = timers ?s2" "pendingCleanups s1 = pendingCleanups ?s2"
          "activeNotes s1 = activeNotes ?s2"
          "\<forall>i. i \<notin> set (available (partialPool ?s2)) \<longrightarrow>
                 pool (partialPool s1) ! i = pool (partialPool ?s2) ! i"
        by blast
      have e: "acquireLoop s vel now (c # rest) ps ias = Inr (s1, ps', ias')"
        using fr b ih(1) by simp
      have o: "\<forall>i. i \<notin> set ?av \<longrightarrow> pool (partialPool s1) ! i = pool (partialPool s) ! i"
      proof (intro allI impI)
        fix i assume i: "i \<notin> set ?av"
        then have "i \<notin> set (butlast ?av)" by (auto dest: in_set_butlastD)
        then have "pool (partialPool s1) ! i = pool (partialPool ?s2) ! i" using ih(5) av2 by simp
        moreover have "i \<noteq> ?r" using i ne by auto
        then have "pool (partialPool ?s2) ! i = pool pp ! i" by (simp add: configurePartial_other)
        moreover have "pool pp ! i = pool (partialPool s) ! i"
          using acquire_other[OF Cons.prems(1) a i] .
        ultimately show "pool (partialPool s1) ! i = pool (partialPool s) ! i" by simp
      qed
      show ?thesis using e ih(2,3,4) o by (simp add: configurePartial_quiet an2)
    qed
  qed
qed

text \<open>
  Claim C7, as the code has it.  Let the pool satisfy its invariant, \<open>maxPartials\<close> be
  non-negative, and let the selection fit into the free partials or no voice be a steal
  candidate.  The selection is \<open>loudestAudible K configs\<close>: the configurations with
  amplitude above 0.001 and frequency at most 24000, by amplitude descending (equal
  amplitudes in profile order), cut to the first \<open>K\<close>, where \<open>K\<close> is the adaptive limit.
  \<open>noteOn\<close> does not throw and activates a prefix of the selection, in order: the whole
  selection when it fits, and otherwise as many partials as are free; the \<open>j\<close>-th partial
  of the voice carries the \<open>j\<close>-th selected configuration's harmonic number and amplitude
  and is tuned to its frequency.  No voice is released for it: no timer is queued, no
  cleanup becomes pending, every other voice and every partial that was in use stay as
  they are.  The limit \<open>K\<close> equals \<open>maxPartials\<close> when the pool usage is at most the double
  0.7, and above it \<open>K\<close> is \<open>max 6 (round (maxPartials * (1 - (usage - 0.7) / 0.3)))\<close>
  in double arithmetic; with \<open>maxPartials\<close> at least 6 (and below \<open>2 ^ 53\<close>) it lies between
  6 and \<open>maxPartials\<close>.
\<close>

theorem noteOn_activates_loudest:
  assumes "pool_wf (partialPool s)" and "0 \<le> maxPartials s"
    and "length (loudestAudible (adaptiveMaxPartials s) configs) \<le> length (available (partialPool s))
         \<or> list_all (\<lambda>e. keyDown (snd e) \<or> partials (snd e) = []) (activeNotes s)"
  shows "(\<exists>g s' v. noteOn s noteId fr vel kd pd configs = Inr (g, s') \<and>
            map_of (activeNotes s') noteId = Some v \<and>
            length (partials v) = min (length (loudestAudible (adaptiveMaxPartials s) configs))
                                      (length (available (partialPool s))) \<and>
            initialAmplitudes v =
              map (\<lambda>c. \<lparr>infoHarmonicNum = harmonicNum c, initialAmp = amp c\<rparr>)
                (take (length (partials v)) (loudestAudible (adaptiveMaxPartials s) configs)) \<and>
            (\<forall>j<length (partials v).
                oscFrequency (pool (partialPool s') ! (partials v ! j))
                  = freq (loudestAudible (adaptiveMaxPartials s) configs ! j)) \<and>
            timers s' = timers s \<and> pendingCleanups s' = pendingCleanups s \<and>
            (\<forall>k. k \<noteq> noteId \<longrightarrow> map_of (activeNotes s') k = map_of (activeNotes s) k) \<and>
            (\<forall>i. i \<notin> set (available (partialPool s)) \<longrightarrow>
                 pool (partialPool s') ! i = pool (partialPool s) ! i)) \<and>
         (pool (partialPool s) \<noteq> [] \<longrightarrow>
            (poolUsageRatio s \<le> fl64 0.7 \<longrightarrow> adaptiveMaxPartials s = maxPartials s) \<and>
            (poolUsageRatio s > fl64 0.7 \<longrightarrow>
               adaptiveMaxPartials s =
                 max 6 (Math_round
                          (fl64 (real_of_int (maxPartials s) *
                                 fl64 (1 - fl64 (fl64 (poolUsageRatio s - fl64 0.7) / fl64 0.3))))))) \<and>
         (6 \<le> maxPartials s \<longrightarrow> 6 \<le> adaptiveMaxPartials s) \<and>
         (6 \<le> maxPartials s \<and> maxPartials s < 2 ^ 53 \<longrightarrow> adaptiveMaxPartials s \<le> maxPartials s)"
proof (intro conjI impI)
  let ?sel = "loudestAudible (adaptiveMaxPartials s) configs"
  let ?av = "available (partialPool s)"
  let ?k = "min (length ?sel) (length ?av)"
  let ?v = "\<lparr>partials = take ?k (rev ?av),
             gainNode = \<lparr>currentValue = 1, scheduled = []\<rparr>, frequency = fr,
             velocity = vel, startTime = currentTime s, keyDown = kd, pedalDown = pd,
             initialAmplitudes = map (\<lambda>c. \<lparr>infoHarmonicNum = harmonicNum c, initialAmp = amp c\<rparr>) (take ?k ?sel),
             lastUpdateTime = currentTime s\<rparr>"
  from noteOn_char[OF assms(1,2), of noteId fr vel kd pd configs] obtain s1 where
    n: "noteOn s noteId fr vel kd pd configs =
          Inr (\<lparr>currentValue = 1, scheduled = []\<rparr>, s1\<lparr>activeNotes := AList.update noteId ?v (activeNotes s1)\<rparr>)"
    and o1: "\<forall>j<?k. oscFrequency (pool (partialPool s1) ! (rev ?av ! j)) = freq (?sel ! j)"
    by blast
  have hyp: "length (filter (\<lambda>c. \<not> freq c > 24000) ?sel) \<le> length ?av
               \<or> (\<forall>e\<in>set (activeNotes s). \<not> stealEligible (snd e))"
    using assms(3) by (auto simp: loudestAudible_freq list_all_iff stealEligible_def)
  from acquireLoop_quiet[OF assms(1) hyp, of vel "currentTime s" "[]" "[]"]
  obtain s2 ps' ias' where
    q: "acquireLoop s vel (currentTime s) ?sel [] [] = Inr (s2, ps', ias')"
      "timers s2 = timers s" "pendingCleanups s2 = pendingCleanups s" "activeNotes s2 = activeNotes s"
      "\<forall>i. i \<notin> set ?av \<longrightarrow> pool (partialPool s2) ! i = pool (partialPool s) ! i"
    by blast
  have n2: "noteOn s noteId fr vel kd pd configs =
          Inr (\<lparr>currentValue = 1, scheduled = []\<rparr>,
               s2\<lparr>activeNotes :=
                    AList.update noteId
                      \<lparr>partials = ps', gainNode = \<lparr>currentValue = 1, scheduled = []\<rparr>, frequency = fr,
                       velocity = vel, startTime = currentTime s, keyDown = kd, pedalDown = pd,
                       initialAmplitudes = ias', lastUpdateTime = currentTime s\<rparr>
                      (activeNotes s2)\<rparr>)"
    by (simp add: noteOn_def Let_def noteOn_selection[OF assms(2)] q(1))
  let ?s' = "s1\<lparr>activeNotes := AList.update noteId ?v (activeNotes s1)\<rparr>"
  have eq: "?s' = s2\<lparr>activeNotes :=
                    AList.update noteId
                      \<lparr>partials = ps', gainNode = \<lparr>currentValue = 1, scheduled = []\<rparr>, frequency = fr,
                       velocity = vel, startTime = currentTime s, keyDown = kd, pedalDown = pd,
                       initialAmplitudes = ias', lastUpdateTime = currentTime s\<rparr>
                      (activeNotes s2)\<rparr>"
    using n n2 by simp
  have len: "length (partials ?v) = ?k" by simp
  have c1: "map_of (activeNotes ?s') noteId = Some ?v" by (simp add: update_conv')
  have c2: "initialAmplitudes ?v =
              map (\<lambda>c. \<lparr>infoHarmonicNum = harmonicNum c, initialAmp = amp c\<rparr>) (take (length (partials ?v)) ?sel)"
    by simp
  have c3: "\<forall>j<length (partials ?v). oscFrequency (pool (partialPool ?s') ! (partials ?v ! j)) = freq (?sel ! j)"
    using o1 by simp
  have c4: "timers ?s' = timers s" "pendingCleanups ?s' = pendingCleanups s"
    unfolding eq using q(2,3) by simp_all
  have c5: "\<forall>k. k \<noteq> noteId \<longrightarrow> map_of (activeNotes ?s') k = map_of (activeNotes s) k"
    unfolding eq using q(4) by (simp add: update_conv')
  have c6: "\<forall>i. i \<notin> set ?av \<longrightarrow> pool (partialPool ?s') ! i = pool (partialPool s) ! i"
    unfolding eq using q(5) by simp
  show "\<exists>g s' v. noteOn s noteId fr vel kd pd configs = Inr (g, s') \<and>
            map_of (activeNotes s') noteId = Some v \<and>
            length (partials v) = ?k \<and>
            initialAmplitudes v =
              map (\<lambda>c. \<lparr>infoHarmonicNum = harmonicNum c, initialAmp = amp c\<rparr>)
                (take (length (partials v)) ?sel) \<and>
            (\<forall>j<length (partials v).
                oscFrequency (pool (partialPool s') ! (partials v ! j)) = freq (?sel ! j)) \<and>
            timers s' = timers s \<and> pendingCleanups s' = pendingCleanups s \<and>
            (\<forall>k. k \<noteq> noteId \<longrightarrow> map_of (activeNotes s') k = map_of (activeNotes s) k) \<and>
            (\<forall>i. i \<notin> set ?av \<longrightarrow> pool (partialPool s') ! i = pool (partialPool s) ! i)"
    using n len c1 c2 c3 c4 c5 c6
    by (intro exI[of _ "\<lparr>currentValue = 1, scheduled = []\<rparr>"] exI[of _ ?s'] exI[of _ ?v] conjI)
next
  assume "pool (partialPool s) \<noteq> []" "poolUsageRatio s \<le> fl64 0.7"
  then show "adaptiveMaxPartials s = maxPartials s" by (rule adaptive_usage(1))
next
  assume "pool (partialPool s) \<noteq> []" "poolUsageRatio s > fl64 0.7"
  then show "adaptiveMaxPartials s =
                 max 6 (Math_round
                          (fl64 (real_of_int (maxPartials s) *
                                 fl64 (1 - fl64 (fl64 (poolUsageRatio s - fl64 0.7) / fl64 0.3)))))"
    by (rule adaptive_usage(2))
next
  assume "6 \<le> maxPartials s"
  then show "6 \<le> adaptiveMaxPartials s" by (rule adaptive_lower)
next
  assume "6 \<le> maxPartials s \<and> maxPartials s < 2 ^ 53"
  then show "adaptiveMaxPartials s \<le> maxPartials s" using adaptive_upper[of s] by simp
qed

lemma nearlyFull_noteOn:
  "noteOn nearlyFullSynth 2 440 127 True False mixedConfigs =
     Inr (\<lparr>currentValue = 1, scheduled = []\<rparr>,
          \<lparr>currentTime = 10,
          partialPool =
          \<lparr>pool =
          [\<lparr>oscFrequency = 440,
          gain =
          \<lparr>currentValue = 0,
          scheduled =
          [SetValueAtTime (1 / 1000) 10,
          ExponentialRampToValueAtTime 1 (1001 / 100),
          ExponentialRampToValueAtTime (1 / 2) (1031 / 100),
          SetValueAtTime (1 / 2) (1031 / 100)]\<rparr>,
          connected = True, inUse = True, index = 0\<rparr>,
          \<lparr>oscFrequency = 440,
          gain = \<lparr>currentValue = 1 / 5, scheduled = []\<rparr>,
          connected = True, inUse = True, index = 1\<rparr>,
          \<lparr>oscFrequency = 660,
          gain = \<lparr>currentValue = 1 / 50, scheduled = []\<rparr>,
          connected = True, inUse = True, index = 2\<rparr>,
          \<lparr>oscFrequency = 330,
          gain = \<lparr>currentValue = 1 / 2, scheduled = []\<rparr>,
          connected = True, inUse = True, index = 3\<rparr>],
          available = []\<rparr>,
          activeNotes =
          [(1, \<lparr>partials = [3, 2, 1],
          gainNode = \<lparr>currentValue = 1, scheduled = []\<rparr>,
          frequency = 440, velocity = 100, startTime = 9,
          keyDown = True, pedalDown = False,
          initialAmplitudes =
          [\<lparr>infoHarmonicNum = 1, initialAmp = 1 / 2\<rparr>,
          \<lparr>infoHarmonicNum = 2, initialAmp = 1 / 2\<rparr>,
          \<lparr>infoHarmonicNum = 3, initialAmp = 1 / 2\<rparr>],
          lastUpdateTime = 9\<rparr>),
          (2, \<lparr>partials = [0], gainNode = \<lparr>currentValue = 1, scheduled = []\<rparr>,
          frequency = 440, velocity = 127, startTime = 10,
          keyDown = True, pedalDown = False,
          initialAmplitudes =
          [\<lparr>infoHarmonicNum = 1, initialAmp = 1 / 2\<rparr>],
          lastUpdateTime = 10\<rparr>)],
          pendingCleanups = [], maxPartials = 12, timers = [], nextTimerId = 1\<rparr>)"
  by (simp add: nearlyFullSynth_def mixedConfigs_def exampleVoice_def soundingPartial_def eval_defs
      stealVoiceFromQuietestSustainedNote_def stealStep_def stealEligible_def)

lemma nearlyFullAfter_eq:
  "nearlyFullAfter =
     \<lparr>currentTime = 10,
     partialPool =
     \<lparr>pool =
     [\<lparr>oscFrequency = 440,
     gain =
     \<lparr>currentValue = 0,
     scheduled =
     [SetValueAtTime (1 / 1000) 10,
     ExponentialRampToValueAtTime 1 (1001 / 100),
     ExponentialRampToValueAtTime (1 / 2) (1031 / 100),
     SetValueAtTime (1 / 2) (1031 / 100)]\<rparr>,
     connected = True, inUse = True, index = 0\<rparr>,
     \<lparr>oscFrequency = 440,
     gain = \<lparr>currentValue = 1 / 5, scheduled = []\<rparr>,
     connected = True, inUse = True, index = 1\<rparr>,
     \<lparr>oscFrequency = 660,
     gain = \<lparr>currentValue = 1 / 50, scheduled = []\<rparr>,
     connected = True, inUse = True, index = 2\<rparr>,
     \<lparr>oscFrequency = 330,
     gain = \<lparr>currentValue = 1 / 2, scheduled = []\<rparr>,
     connected = True, inUse = True, index = 3\<rparr>],
     available = []\<rparr>,
     activeNotes =
     [(1, \<lparr>partials = [3, 2, 1],
     gainNode = \<lparr>currentValue = 1, scheduled = []\<rparr>,
     frequency = 440, velocity = 100, startTime = 9,
     keyDown = True, pedalDown = False,
     initialAmplitudes =
     [\<lparr>infoHarmonicNum = 1, initialAmp = 1 / 2\<rparr>,
     \<lparr>infoHarmonicNum = 2, initialAmp = 1 / 2\<rparr>,
     \<lparr>infoHarmonicNum = 3, initialAmp = 1 / 2\<rparr>],
     lastUpdateTime = 9\<rparr>),
     (2, \<lparr>partials = [0], gainNode = \<lparr>currentValue = 1, scheduled = []\<rparr>,
     frequency = 440, velocity = 127, startTime = 10,
     keyDown = True, pedalDown = False,
     initialAmplitudes =
     [\<lparr>infoHarmonicNum = 1, initialAmp = 1 / 2\<rparr>],
     lastUpdateTime = 10\<rparr>)],
     pendingCleanups = [], maxPartials = 12, timers = [], nextTimerId = 1\<rparr>"
  by (simp add: nearlyFullAfter_def nearlyFull_noteOn)

lemma nearlyFull_adaptive: "adaptiveMaxPartials nearlyFullSynth = 10"
  by (simp add: adaptiveMaxPartials_def nearlyFullSynth_def Math_round_def Let_def fl_defs)

lemma mixed_loudest:
  "loudestAudible 10 mixedConfigs =
     [\<lparr>freq = 440, amp = 1 / 2, decay = 3 / 10, harmonicNum = 1\<rparr>,
      \<lparr>freq = 880, amp = 1 / 4, decay = 1 / 5, harmonicNum = 2\<rparr>]"
  by (simp add: loudestAudible_def audible_def mixedConfigs_def)

text \<open>
  Claim C7 as stated fails in two places.  With one free partial and the other three held
  by a voice whose key is down, \<open>noteOn\<close> activates only the loudest of the two
  configurations the selection algorithm chooses.  And a
  configuration whose amplitude equals the threshold 0.001 is not below it, so the
  selection as the specification words it keeps it, while \<open>selectPartials\<close> discards it.
\<close>

theorem selection_not_always_activated:
  "selection_spec (adaptiveMaxPartials nearlyFullSynth) mixedConfigs =
     [\<lparr>freq = 440, amp = 1 / 2, decay = 3 / 10, harmonicNum = 1\<rparr>,
      \<lparr>freq = 880, amp = 1 / 4, decay = 1 / 5, harmonicNum = 2\<rparr>] \<and>
   noteOn nearlyFullSynth 2 440 127 True False mixedConfigs
     = Inr (\<lparr>currentValue = 1, scheduled = []\<rparr>, nearlyFullAfter) \<and>
   map_option partials (map_of (activeNotes nearlyFullAfter) 2) = Some [0] \<and>
   map_option initialAmplitudes (map_of (activeNotes nearlyFullAfter) 2)
     = Some [\<lparr>infoHarmonicNum = 1, initialAmp = 1 / 2\<rparr>] \<and>
   selection_spec 12 [thresholdConfig] = [thresholdConfig] \<and>
   selectPartials nearlyFullSynth [thresholdConfig] (Some 12) = []"
proof -
  have a: "noteOn nearlyFullSynth 2 440 127 True False mixedConfigs
     = Inr (\<lparr>currentValue = 1, scheduled = []\<rparr>, nearlyFullAfter)"
    by (simp only: nearlyFullAfter_eq nearlyFull_noteOn)
  have b: "selection_spec (adaptiveMaxPartials nearlyFullSynth) mixedConfigs =
     [\<lparr>freq = 440, amp = 1 / 2, decay = 3 / 10, harmonicNum = 1\<rparr>,
      \<lparr>freq = 880, amp = 1 / 4, decay = 1 / 5, harmonicNum = 2\<rparr>]"
    by (simp add: nearlyFull_adaptive selection_spec_def mixedConfigs_def)
  have c: "selection_spec 12 [thresholdConfig] = [thresholdConfig]"
    "selectPartials nearlyFullSynth [thresholdConfig] (Some 12) = []"
    by (simp_all add: selection_spec_def selectPartials_def thresholdConfig_def Let_def slice0_def)
  show ?thesis
    by (simp only: a b c) (simp add: nearlyFullAfter_eq)
qed

theorem noteOn_activates_loudest_witness:
  "pool_wf (partialPool nearlyFullSynth) \<and> 0 \<le> maxPartials nearlyFullSynth \<and>
   list_all (\<lambda>e. keyDown (snd e) \<or> partials (snd e) = []) (activeNotes nearlyFullSynth) \<and>
   pool (partialPool nearlyFullSynth) \<noteq> [] \<and> poolUsageRatio nearlyFullSynth = 3 / 4 \<and>
   fl64 (7 / 10) < 3 / 4 \<and>
   6 \<le> maxPartials nearlyFullSynth \<and> maxPartials nearlyFullSynth < 2 ^ 53 \<and>
   adaptiveMaxPartials nearlyFullSynth = 10 \<and>
   (\<exists>g s' v. noteOn nearlyFullSynth 2 440 127 True False mixedConfigs = Inr (g, s') \<and>
        map_of (activeNotes s') 2 = Some v \<and> length (partials v) = 1 \<and>
        initialAmplitudes v = [\<lparr>infoHarmonicNum = 1, initialAmp = 1 / 2\<rparr>] \<and>
        oscFrequency (pool (partialPool s') ! (partials v ! 0)) = 440 \<and>
        timers s' = [] \<and> pendingCleanups s' = [] \<and>
        map_of (activeNotes s') 1 = Some (exampleVoice [3, 2, 1] 9 True False) \<and>
        pool (partialPool s') ! 3 = soundingPartial 3 330 (1 / 2))"
proof -
  have h: "pool_wf (partialPool nearlyFullSynth)" "0 \<le> maxPartials nearlyFullSynth"
    "list_all (\<lambda>e. keyDown (snd e) \<or> partials (snd e) = []) (activeNotes nearlyFullSynth)"
    "pool (partialPool nearlyFullSynth) \<noteq> []"
    "6 \<le> maxPartials nearlyFullSynth" "maxPartials nearlyFullSynth < 2 ^ 53"
    "length (available (partialPool nearlyFullSynth)) = 1"
    by (simp_all add: nearlyFullSynth_def pool_wf_def newPartial_def soundingPartial_def exampleVoice_def)
  have u: "poolUsageRatio nearlyFullSynth = 3 / 4" "fl64 (7 / 10) < 3 / 4"
    by (simp_all add: poolUsageRatio_def nearlyFullSynth_def fl_defs Let_def)
  have f: "timers nearlyFullSynth = []" "pendingCleanups nearlyFullSynth = []"
    "map_of (activeNotes nearlyFullSynth) 1 = Some (exampleVoice [3, 2, 1] 9 True False)"
    "available (partialPool nearlyFullSynth) = [0]"
    "pool (partialPool nearlyFullSynth) ! 3 = soundingPartial 3 330 (1 / 2)"
    by (simp_all add: nearlyFullSynth_def)
  note th = noteOn_activates_loudest[where s = nearlyFullSynth and configs = mixedConfigs and noteId = 2
      and fr = 440 and vel = 127 and kd = True and pd = False, OF h(1,2) disjI2[OF h(3)], THEN conjunct1]
  from th obtain g s' v where r: "noteOn nearlyFullSynth 2 440 127 True False mixedConfigs = Inr (g, s')"
    "map_of (activeNotes s') 2 = Some v"
    "length (partials v) = min (length (loudestAudible (adaptiveMaxPartials nearlyFullSynth) mixedConfigs))
                               (length (available (partialPool nearlyFullSynth)))"
    "initialAmplitudes v =
       map (\<lambda>c. \<lparr>infoHarmonicNum = harmonicNum c, initialAmp = amp c\<rparr>)
         (take (length (partials v)) (loudestAudible (adaptiveMaxPartials nearlyFullSynth) mixedConfigs))"
    "\<forall>j<length (partials v).
        oscFrequency (pool (partialPool s') ! (partials v ! j))
          = freq (loudestAudible (adaptiveMaxPartials nearlyFullSynth) mixedConfigs ! j)"
    "timers s' = timers nearlyFullSynth" "pendingCleanups s' = pendingCleanups nearlyFullSynth"
    "\<forall>k. k \<noteq> 2 \<longrightarrow> map_of (activeNotes s') k = map_of (activeNotes nearlyFullSynth) k"
    "\<forall>i. i \<notin> set (available (partialPool nearlyFullSynth)) \<longrightarrow>
         pool (partialPool s') ! i = pool (partialPool nearlyFullSynth) ! i"
    by (elim exE conjE) (rule that; assumption)
  have l: "length (partials v) = 1" using r(3) by (simp add: nearlyFull_adaptive mixed_loudest h(7))
  have i1: "initialAmplitudes v = [\<lparr>infoHarmonicNum = 1, initialAmp = 1 / 2\<rparr>]"
    using r(4) by (simp add: l nearlyFull_adaptive mixed_loudest)
  have i2: "oscFrequency (pool (partialPool s') ! (partials v ! 0)) = 440"
    using r(5) l by (simp add: nearlyFull_adaptive mixed_loudest)
  have i3: "timers s' = []" "pendingCleanups s' = []" using r(6,7) f(1,2) by simp_all
  have i4: "map_of (activeNotes s') 1 = Some (exampleVoice [3, 2, 1] 9 True False)"
    using r(8)[rule_format, of 1] f(3) by simp
  have i5: "pool (partialPool s') ! 3 = soundingPartial 3 330 (1 / 2)"
    using r(9)[rule_format, of 3] f(4,5) by simp
  have "\<exists>g s' v. noteOn nearlyFullSynth 2 440 127 True False mixedConfigs = Inr (g, s') \<and>
        map_of (activeNotes s') 2 = Some v \<and> length (partials v) = 1 \<and>
        initialAmplitudes v = [\<lparr>infoHarmonicNum = 1, initialAmp = 1 / 2\<rparr>] \<and>
        oscFrequency (pool (partialPool s') ! (partials v ! 0)) = 440 \<and>
        timers s' = [] \<and> pendingCleanups s' = [] \<and>
        map_of (activeNotes s') 1 = Some (exampleVoice [3, 2, 1] 9 True False) \<and>
        pool (partialPool s') ! 3 = soundingPartial 3 330 (1 / 2)"
    using r(1,2) l i1 i2 i3 i4 i5 by (intro exI[of _ g] exI[of _ s'] exI[of _ v] conjI)
  then show ?thesis using h(1-6) u nearlyFull_adaptive by (intro conjI)
qed

end
